theory Spec2Isabelle
  imports
    Main
    "HOL-Library.Word"
    "HOL-Library.Char_ord"
    "HOL-Library.List_Lexorder"
begin

unbundle bit_operations_syntax

section \<open>Library types used by the reloader\<close>

subsection \<open>Durations and times (Go package time)\<close>

text \<open>
  A \<open>time.Duration\<close> is an int64 count of nanoseconds. The only arithmetic the
  program does on durations is constant arithmetic and \<open>Time.Sub\<close>, which saturates
  at the int64 bounds; durations are therefore integers, with that saturation written out.
\<close>

type_synonym Duration = int

definition minDuration :: Duration where
  "minDuration = - (2 ^ 63)"

definition maxDuration :: Duration where
  "maxDuration = 2 ^ 63 - 1"

definition Second :: Duration where
  "Second = 1000000000"

definition Minute :: Duration where
  "Minute = 60 * Second"

text \<open>
  A \<open>time.Time\<close> holds a wall clock reading and, optionally, a monotonic clock reading.
  \<open>wall\<close> counts nanoseconds since January 1, year 1, 00:00:00 UTC, the instant of the
  zero value \<open>time.Time{}\<close>.
\<close>

record Time =
  wall :: int
  mono :: "int option"

definition zeroTime :: Time where
  "zeroTime = \<lparr>wall = 0, mono = None\<rparr>"

text \<open>\<open>t.IsZero()\<close> looks at the wall clock instant only.\<close>

definition IsZero :: "Time \<Rightarrow> bool" where
  "IsZero t = (wall t = 0)"

definition saturate :: "int \<Rightarrow> Duration" where
  "saturate d =
     (if d < minDuration then minDuration
      else if maxDuration < d then maxDuration
      else d)"

text \<open>
  \<open>t.Sub(u)\<close>: when both times carry a monotonic reading the difference is taken on the
  monotonic clock, otherwise on the wall clock; a difference outside the range of a
  Duration is replaced by the nearest bound.
\<close>

definition Sub :: "Time \<Rightarrow> Time \<Rightarrow> Duration" where
  "Sub t u =
     (case (mono t, mono u) of
        (Some a, Some b) \<Rightarrow> saturate (a - b)
      | _ \<Rightarrow> saturate (wall t - wall u))"

text \<open>
  What the clocks show at one moment. \<open>time.Now()\<close> returns the wall clock reading
  together with the monotonic one.
\<close>

record reading =
  wallclock :: int
  monotonic :: int

definition Now :: "reading \<Rightarrow> Time" where
  "Now r = \<lparr>wall = wallclock r, mono = Some (monotonic r)\<rparr>"

subsection \<open>Errors\<close>

text \<open>
  Go errors are values; \<open>nil\<close> is \<open>None\<close> of an \<open>error option\<close>. \<open>Wrapped\<close> is an
  error that wraps another one, as \<open>errors.Is\<close> sees it.
\<close>

datatype error =
    Canceled
  | DeadlineExceeded
  | ErrServerClosed
  | ErrorString string
  | Wrapped string error

subsection \<open>Strings and paths (Go packages strings, path/filepath)\<close>

definition HasSuffix :: "string \<Rightarrow> string \<Rightarrow> bool" where
  "HasSuffix s suffix =
     (length suffix \<le> length s \<and> drop (length s - length suffix) s = suffix)"

text \<open>The elements of a path between its separators, and their concatenation with separators.\<close>

fun splitSep :: "string \<Rightarrow> string list" where
  "splitSep [] = [[]]"
| "splitSep (c # cs) =
     (if c = CHR ''/'' then [] # splitSep cs
      else (case splitSep cs of
              [] \<Rightarrow> [[c]]
            | e # es \<Rightarrow> (c # e) # es))"

fun joinSep :: "string list \<Rightarrow> string" where
  "joinSep [] = []"
| "joinSep [e] = e"
| "joinSep (e # es) = e @ ''/'' @ joinSep es"

text \<open>
  \<open>filepath.Clean\<close> on a Unix system, element by element: empty elements and \<open>.\<close> are
  dropped; \<open>..\<close> removes the element written before it, is dropped at the root and is kept
  at the front of a relative path.
\<close>

fun cleanElems :: "bool \<Rightarrow> string list \<Rightarrow> string list \<Rightarrow> string list" where
  "cleanElems rooted out [] = out"
| "cleanElems rooted out (e # es) =
     (if e = [] \<or> e = ''.'' then cleanElems rooted out es
      else if e = ''..'' then
        (if out \<noteq> [] \<and> last out \<noteq> ''..'' then cleanElems rooted (butlast out) es
         else if \<not> rooted then cleanElems rooted (out @ [''..'']) es
         else cleanElems rooted out es)
      else cleanElems rooted (out @ [e]) es)"

definition Clean :: "string \<Rightarrow> string" where
  "Clean path =
     (if path = [] then ''.''
      else
        let rooted = (hd path = CHR ''/'');
            out = cleanElems rooted [] (splitSep path);
            s = (if rooted then ''/'' else []) @ joinSep out
        in if s = [] then ''.'' else s)"

text \<open>
  \<open>filepath.Join(elem...)\<close>: leading empty elements are ignored, the rest is joined with
  separators and cleaned; with nothing but empty elements the result is empty.
\<close>

definition Join :: "string list \<Rightarrow> string" where
  "Join elem =
     (case dropWhile (\<lambda>e. e = []) elem of
        [] \<Rightarrow> []
      | es \<Rightarrow> Clean (joinSep es))"

subsection \<open>Directory listings (Go package os)\<close>

record DirEntry =
  Name :: string
  IsDir :: bool

subsection \<open>File system notifications (package fsnotify)\<close>

type_synonym Op = "32 word"

definition Create :: Op where "Create = 1"
definition Write :: Op where "Write = 2"
definition Remove :: Op where "Remove = 4"
definition Rename :: Op where "Rename = 8"
definition Chmod :: Op where "Chmod = 16"

definition Has :: "Op \<Rightarrow> Op \<Rightarrow> bool" where
  "Has op h = (op AND h \<noteq> 0)"

record Event =
  evt_Name :: string
  evt_Op :: Op

subsection \<open>The world a reload sees\<close>

text \<open>
  What the environment answers at the moment a tick is handled: the clocks, the result of
  registering the watch directory again, the directory listings as the operating system
  delivers them (in no particular order), and the configuration loader
  \<open>conf.LoadGlobalFiles\<close>, which reads the files it is given.
\<close>

record 'cfg world =
  clock :: reading
  addErr :: "error option"
  dirents :: "string \<Rightarrow> error + DirEntry list"
  LoadGlobalFiles :: "string list \<Rightarrow> error + 'cfg"

text \<open>\<open>os.ReadDir\<close> returns the entries of the directory sorted by filename.\<close>

definition ReadDir :: "'cfg world \<Rightarrow> string \<Rightarrow> error + DirEntry list" where
  "ReadDir w name =
     (case dirents w name of
        Inl err \<Rightarrow> Inl err
      | Inr ents \<Rightarrow> Inr (sort_key Name ents))"

text \<open>
  What the reloader does to the outside, in the order it does it. \<open>ReloadAttempt\<close> is
  the call of \<open>reloadConfig\<close>, with the clock reading of the tick that makes it;
  \<open>ConfigFn\<close> is the call of the callback given to \<open>Watch\<close>.
\<close>

datatype 'cfg effect =
    LogWithError "error option" string
  | LogError string
  | WatcherAdd string
  | ReloadAttempt reading
  | ReadDirCall string
  | LoaderCall "string list"
  | ConfigFn 'cfg

section \<open>The reloader\<close>

definition reloadInterval :: Duration where
  "reloadInterval = Second * 10"

definition tickerInterval :: Duration where
  "tickerInterval = reloadInterval div 10"

record Reloader =
  watchDir :: string
  reloadIval :: Duration
  tickerIval :: Duration

definition NewReloader :: "string \<Rightarrow> Reloader" where
  "NewReloader dir =
     \<lparr>watchDir = dir, reloadIval = reloadInterval, tickerIval = tickerInterval\<rparr>"

definition reloadCheckAt :: "Reloader \<Rightarrow> Time \<Rightarrow> Time \<Rightarrow> bool" where
  "reloadCheckAt rl at lastUpdate =
     (if IsZero lastUpdate then False
      else if Sub at lastUpdate < reloadIval rl then False
      else True)"

text \<open>The loop of \<open>reloadConfig\<close> over the directory entries.\<close>

fun envPaths :: "string \<Rightarrow> DirEntry list \<Rightarrow> string list" where
  "envPaths dir [] = []"
| "envPaths dir (ent # ents) =
     (if IsDir ent then envPaths dir ents
      else if \<not> HasSuffix (Name ent) ''.env'' then envPaths dir ents
      else Join [dir, Name ent] # envPaths dir ents)"

definition reloadConfig :: "'cfg world \<Rightarrow> Reloader \<Rightarrow> (error + 'cfg) \<times> 'cfg effect list" where
  "reloadConfig w rl =
     (case ReadDir w (watchDir rl) of
        Inl err \<Rightarrow> (Inl err, [ReadDirCall (watchDir rl)])
      | Inr ents \<Rightarrow>
          (let paths = envPaths (watchDir rl) ents
           in case LoadGlobalFiles w paths of
                Inl err \<Rightarrow> (Inl err, [ReadDirCall (watchDir rl), LoaderCall paths])
              | Inr cfg \<Rightarrow> (Inr cfg, [ReadDirCall (watchDir rl), LoaderCall paths])))"

text \<open>
  One pass through the \<open>select\<close> of \<open>Watch\<close>: the case that was chosen, with what the
  environment delivers in it. A closed channel delivers \<open>None\<close>.
\<close>

datatype 'cfg chosen =
    CtxDone error
  | TrC "'cfg world"
  | WrEvents "Event option" reading
  | WrErrors "error option"

datatype flow = Continue | Return "error option"

definition watchAdd :: "Reloader \<Rightarrow> error option \<Rightarrow> 'cfg effect list" where
  "watchAdd rl r =
     WatcherAdd (watchDir rl) #
     (case r of
        Some err \<Rightarrow> [LogWithError (Some err) ''watch dir failed'']
      | None \<Rightarrow> [])"

fun Watch_select :: "Reloader \<Rightarrow> Time \<Rightarrow> 'cfg chosen \<Rightarrow> flow \<times> Time \<times> 'cfg effect list" where
  "Watch_select rl lastUpdate (CtxDone err) = (Return (Some err), lastUpdate, [])"
| "Watch_select rl lastUpdate (TrC w) =
     (if \<not> reloadCheckAt rl (Now (clock w)) lastUpdate
      then (Continue, lastUpdate, watchAdd rl (addErr w))
      else
        let lastUpdate' = zeroTime;
            (r, effs) = reloadConfig w rl
        in case r of
             Inl err \<Rightarrow>
               (Continue, lastUpdate',
                watchAdd rl (addErr w) @ ReloadAttempt (clock w) # effs @
                [LogWithError (Some err) ''config reload failed''])
           | Inr cfg \<Rightarrow>
               (Continue, lastUpdate',
                watchAdd rl (addErr w) @ ReloadAttempt (clock w) # effs @
                [ConfigFn cfg]))"
| "Watch_select rl lastUpdate (WrEvents None now) =
     (Return None, lastUpdate, [LogWithError None ''fsnotify has exited''])"
| "Watch_select rl lastUpdate (WrEvents (Some evt) now) =
     (if \<not> HasSuffix (evt_Name evt) ''.env'' then (Continue, lastUpdate, [])
      else if Has (evt_Op evt) Create \<or> Has (evt_Op evt) Remove \<or>
              Has (evt_Op evt) Rename \<or> Has (evt_Op evt) Write
      then (Continue, Now now, [])
      else (Continue, lastUpdate, []))"
| "Watch_select rl lastUpdate (WrErrors None) =
     (Return None, lastUpdate, [LogError ''fsnotify has exited''])"
| "Watch_select rl lastUpdate (WrErrors (Some err)) =
     (Continue, lastUpdate, [LogWithError (Some err) ''fsnotify has reported an error''])"

text \<open>
  How a run of \<open>Watch\<close> over a finite sequence of chosen cases ends: it has returned, the
  process has exited in \<open>log.Fatal\<close>, \<open>time.NewTicker\<close> has panicked, or the loop is still
  waiting in its \<open>select\<close>.
\<close>

datatype outcome = Returned "error option" | Fatal error | Panicked | Waiting

fun Watch_loop :: "Reloader \<Rightarrow> Time \<Rightarrow> 'cfg chosen list \<Rightarrow> outcome \<times> Time \<times> 'cfg effect list" where
  "Watch_loop rl lastUpdate [] = (Waiting, lastUpdate, [])"
| "Watch_loop rl lastUpdate (c # cs) =
     (case Watch_select rl lastUpdate c of
        (Return r, lastUpdate', effs) \<Rightarrow> (Returned r, lastUpdate', effs)
      | (Continue, lastUpdate', effs) \<Rightarrow>
          (case Watch_loop rl lastUpdate' cs of
             (out, lastUpdate'', effs') \<Rightarrow> (out, lastUpdate'', effs @ effs')))"

text \<open>
  \<open>Watch\<close> from its start: \<open>newWatcher\<close> is the error of \<open>fsnotify.NewWatcher\<close>, \<open>firstAdd\<close>
  the error of the first registration of the watch directory.
\<close>

record startup =
  newWatcher :: "error option"
  firstAdd :: "error option"

definition Watch :: "Reloader \<Rightarrow> startup \<Rightarrow> 'cfg chosen list \<Rightarrow> outcome \<times> 'cfg effect list" where
  "Watch rl st cs =
     (case newWatcher st of
        Some err \<Rightarrow> (Fatal err, [])
      | None \<Rightarrow>
          if tickerIval rl \<le> 0 then (Panicked, [])
          else
            (case Watch_loop rl zeroTime cs of
               (out, lastUpdate, effs) \<Rightarrow> (out, watchAdd rl (firstAdd st) @ effs)))"

section \<open>Observations on a run of Watch\<close>

fun attempts :: "'cfg effect list \<Rightarrow> reading list" where
  "attempts [] = []"
| "attempts (ReloadAttempt r # effs) = r # attempts effs"
| "attempts (_ # effs) = attempts effs"

fun loaderCalls :: "'cfg effect list \<Rightarrow> string list list" where
  "loaderCalls [] = []"
| "loaderCalls (LoaderCall paths # effs) = paths # loaderCalls effs"
| "loaderCalls (_ # effs) = loaderCalls effs"

fun configs :: "'cfg effect list \<Rightarrow> 'cfg list" where
  "configs [] = []"
| "configs (ConfigFn cfg # effs) = cfg # configs effs"
| "configs (_ # effs) = configs effs"

text \<open>The clock readings of a sequence of chosen cases, in the order they are handled.\<close>

fun readings :: "'cfg chosen list \<Rightarrow> reading list" where
  "readings [] = []"
| "readings (TrC w # cs) = clock w # readings cs"
| "readings (WrEvents _ now # cs) = now # readings cs"
| "readings (_ # cs) = readings cs"

text \<open>
  A notification of a change to a configuration file: the name ends in \<open>.env\<close> and the
  operation includes create, remove, rename or write.
\<close>

fun qualifying :: "'cfg chosen \<Rightarrow> bool" where
  "qualifying (WrEvents (Some evt) now) =
     (HasSuffix (evt_Name evt) ''.env'' \<and>
      (Has (evt_Op evt) Create \<or> Has (evt_Op evt) Remove \<or>
       Has (evt_Op evt) Rename \<or> Has (evt_Op evt) Write))"
| "qualifying _ = False"

text \<open>The cases that end the loop: cancellation and a closed channel.\<close>

fun ending :: "'cfg chosen \<Rightarrow> bool" where
  "ending (CtxDone _) = True"
| "ending (WrEvents None _) = True"
| "ending (WrErrors None) = True"
| "ending _ = False"

text \<open>Every later reading is at least \<open>d\<close> after every earlier one, on the monotonic clock.\<close>

fun separated :: "Duration \<Rightarrow> reading list \<Rightarrow> bool" where
  "separated d [] = True"
| "separated d (a # as) =
     ((\<forall>b \<in> set as. d \<le> monotonic b - monotonic a) \<and> separated d as)"

section \<open>The serve command\<close>

text \<open>\<open>errors.Is(err, target)\<close>: \<open>err\<close> or an error it wraps is \<open>target\<close>.\<close>

fun errors_Is :: "error \<Rightarrow> error \<Rightarrow> bool" where
  "errors_Is (Wrapped msg err) target = (Wrapped msg err = target \<or> errors_Is err target)"
| "errors_Is err target = (err = target)"

text \<open>
  \<open>serve\<close> runs two goroutines: the one that called it, and the shutdown coordinator it
  starts. Each is at one of the following places of \<open>serve_cmd.go\<close>.

  The caller: \<open>M_LoadGlobal\<close>, the call of \<open>conf.LoadGlobal\<close> (line 29); \<open>M_Dial\<close>, the call
  of \<open>storage.Dial\<close> (line 34); \<open>M_Go\<close>, \<open>wg.Add(1)\<close> and the \<open>go\<close> statement (lines 62
  and 63); \<open>M_ListenAndServe\<close>, inside \<open>httpSrv.ListenAndServe\<close> (line 78); then the deferred
  calls in the order they run, \<open>M_Wait\<close> for \<open>wg.Wait()\<close> (line 60), \<open>M_BaseCancel\<close> for
  \<open>baseCancel()\<close> (line 47) and \<open>M_DbClose\<close> for \<open>db.Close()\<close> (line 38); \<open>M_Returned\<close>,
  \<open>serve\<close> has returned.

  The coordinator: \<open>C_NotStarted\<close>; \<open>C_Done\<close>, waiting on \<open>ctx.Done()\<close> (line 66);
  \<open>C_Shutdown\<close>, about to call \<open>httpSrv.Shutdown\<close> with a context of one minute (lines 70
  and 73); \<open>C_InShutdown\<close>, inside that call; then the deferred calls in the order they run,
  \<open>C_ShutdownCancel\<close> for \<open>shutdownCancel()\<close> (line 71), \<open>C_BaseCancel\<close> for \<open>baseCancel()\<close>
  (line 68) and \<open>C_WgDone\<close> for \<open>wg.Done()\<close> (line 64); \<open>C_Finished\<close>.

  The goroutines in which \<open>net/http\<close> serves the connections are not part of \<open>serve\<close>; they
  enter further below, as the number of requests in flight.
\<close>

datatype main_pc =
    M_LoadGlobal | M_Dial | M_Go | M_ListenAndServe | M_Wait | M_BaseCancel | M_DbClose
  | M_Returned

datatype co_pc =
    C_NotStarted | C_Done | C_Shutdown | C_InShutdown | C_ShutdownCancel | C_BaseCancel
  | C_WgDone | C_Finished

datatype log_entry = LogFatal string error | LogFailed string error

record serve_state =
  main :: main_pc
  co :: co_pc
  wg :: int
  ctxDone :: bool
  inShutdown :: bool
  shutdownTimeout :: "Duration option"
  shutdownResult :: "error option option"
  baseDone :: bool
  dbClosed :: bool
  exited :: bool
  logged :: "log_entry list"

definition serve_init :: "bool \<Rightarrow> serve_state" where
  "serve_init cancelled =
     \<lparr>main = M_LoadGlobal, co = C_NotStarted, wg = 0, ctxDone = cancelled,
      inShutdown = False, shutdownTimeout = None, shutdownResult = None, baseDone = False,
      dbClosed = False, exited = False, logged = []\<rparr>"

text \<open>
  The next step of the caller of \<open>serve\<close>; \<open>r\<close> is the error of the call made in this step,
  where it makes one. A fatal log entry exits the process. \<open>ListenAndServe\<close> always returns
  an error, and \<open>ErrServerClosed\<close> only once the server has been told to shut down;
  \<open>wg.Wait()\<close> returns only when the counter is zero. \<open>None\<close>: the step cannot be taken.
\<close>

fun main_step :: "error option \<Rightarrow> serve_state \<Rightarrow> serve_state option" where
  "main_step r s =
     (case main s of
        M_LoadGlobal \<Rightarrow>
          (case r of
             Some err \<Rightarrow>
               Some (s\<lparr>exited := True,
                       logged := logged s @ [LogFatal ''unable to load config'' err]\<rparr>)
           | None \<Rightarrow> Some (s\<lparr>main := M_Dial\<rparr>))
      | M_Dial \<Rightarrow>
          (case r of
             Some err \<Rightarrow>
               Some (s\<lparr>exited := True,
                       logged := logged s @ [LogFatal ''error opening database'' err]\<rparr>)
           | None \<Rightarrow> Some (s\<lparr>main := M_Go\<rparr>))
      | M_Go \<Rightarrow> Some (s\<lparr>wg := wg s + 1, co := C_Done, main := M_ListenAndServe\<rparr>)
      | M_ListenAndServe \<Rightarrow>
          (case r of
             None \<Rightarrow> None
           | Some err \<Rightarrow>
               if err \<noteq> ErrServerClosed
               then Some (s\<lparr>exited := True,
                             logged := logged s @ [LogFatal ''http server listen failed'' err]\<rparr>)
               else if inShutdown s then Some (s\<lparr>main := M_Wait\<rparr>)
               else None)
      | M_Wait \<Rightarrow> if wg s = 0 then Some (s\<lparr>main := M_BaseCancel\<rparr>) else None
      | M_BaseCancel \<Rightarrow> Some (s\<lparr>baseDone := True, main := M_DbClose\<rparr>)
      | M_DbClose \<Rightarrow> Some (s\<lparr>dbClosed := True, main := M_Returned\<rparr>)
      | M_Returned \<Rightarrow> None)"

text \<open>
  The next step of the shutdown coordinator; \<open>r\<close> is what \<open>httpSrv.Shutdown\<close> returns, in
  the step in which it returns.
\<close>

fun co_step :: "error option \<Rightarrow> serve_state \<Rightarrow> serve_state option" where
  "co_step r s =
     (case co s of
        C_NotStarted \<Rightarrow> None
      | C_Done \<Rightarrow> if ctxDone s then Some (s\<lparr>co := C_Shutdown\<rparr>) else None
      | C_Shutdown \<Rightarrow>
          Some (s\<lparr>shutdownTimeout := Some Minute, inShutdown := True, co := C_InShutdown\<rparr>)
      | C_InShutdown \<Rightarrow>
          Some (s\<lparr>shutdownResult := Some r,
                  logged := logged s @
                    (case r of
                       Some err \<Rightarrow>
                         if \<not> errors_Is err Canceled then [LogFailed ''shutdown failed'' err]
                         else []
                     | None \<Rightarrow> []),
                  co := C_ShutdownCancel\<rparr>)
      | C_ShutdownCancel \<Rightarrow> Some (s\<lparr>co := C_BaseCancel\<rparr>)
      | C_BaseCancel \<Rightarrow> Some (s\<lparr>baseDone := True, co := C_WgDone\<rparr>)
      | C_WgDone \<Rightarrow> Some (s\<lparr>wg := wg s - 1, co := C_Finished\<rparr>)
      | C_Finished \<Rightarrow> None)"

text \<open>
  One step of the process: the caller of \<open>serve\<close> cancels \<open>ctx\<close>, or one of the two
  goroutines takes its next step. A process that has exited takes no step.
\<close>

datatype label = CtxCancel | MainStep "error option" | CoStep "error option"

fun serve_step :: "label \<Rightarrow> serve_state \<Rightarrow> serve_state option" where
  "serve_step l s =
     (if exited s then None
      else case l of
             CtxCancel \<Rightarrow> Some (s\<lparr>ctxDone := True\<rparr>)
           | MainStep r \<Rightarrow> main_step r s
           | CoStep r \<Rightarrow> co_step r s)"

fun serve_steps :: "label list \<Rightarrow> serve_state \<Rightarrow> serve_state option" where
  "serve_steps [] s = Some s"
| "serve_steps (l # ls) s =
     (case serve_step l s of
        None \<Rightarrow> None
      | Some s' \<Rightarrow> serve_steps ls s')"

inductive reachable :: "serve_state \<Rightarrow> bool" where
  init: "reachable (serve_init cancelled)"
| step: "reachable s \<Longrightarrow> serve_step l s = Some s' \<Longrightarrow> reachable s'"

text \<open>What holds in every state of every interleaving.\<close>

definition serve_inv :: "serve_state \<Rightarrow> bool" where
  "serve_inv s =
     ((co s = C_NotStarted) = (main s \<in> {M_LoadGlobal, M_Dial, M_Go}) \<and>
      wg s = (if co s = C_NotStarted \<or> co s = C_Finished then 0 else 1) \<and>
      (main s \<in> {M_BaseCancel, M_DbClose, M_Returned} \<longrightarrow> co s = C_Finished) \<and>
      (co s \<in> {C_Shutdown, C_InShutdown, C_ShutdownCancel, C_BaseCancel, C_WgDone, C_Finished}
         \<longrightarrow> ctxDone s) \<and>
      (co s \<in> {C_InShutdown, C_ShutdownCancel, C_BaseCancel, C_WgDone, C_Finished}
         \<longrightarrow> inShutdown s \<and> shutdownTimeout s = Some Minute) \<and>
      (co s \<in> {C_ShutdownCancel, C_BaseCancel, C_WgDone, C_Finished}
         \<longrightarrow> shutdownResult s \<noteq> None) \<and>
      (co s \<in> {C_WgDone, C_Finished} \<longrightarrow> baseDone s))"

subsection \<open>The requests in flight\<close>

text \<open>
  The requests served by \<open>httpSrv\<close>, as far as \<open>serve\<close> bears on them, from the documentation
  of \<open>net/http\<close>: \<open>inflight\<close> counts the requests whose handler is running. A request is
  taken up only while \<open>ListenAndServe\<close> is running and the server has not been told to shut
  down. \<open>Shutdown\<close> closes the listeners and waits for the connections to become idle; it
  returns the error of its context when that expires first, without interrupting the
  handlers that are running, and returns anything else only when no request is in flight.
  The context here is the one of one minute, so its error is \<open>DeadlineExceeded\<close>. Hijacked
  connections, for which \<open>Shutdown\<close> does not wait, are left out.

  \<open>Request\<close>: a request arrives and its handler starts; \<open>Handle\<close>: a running handler
  goes on processing its request; \<open>Respond\<close>: a handler finishes.
\<close>

record net_state =
  proc :: serve_state
  inflight :: nat

definition net_init :: "bool \<Rightarrow> net_state" where
  "net_init cancelled = \<lparr>proc = serve_init cancelled, inflight = 0\<rparr>"

datatype net_label = Proc label | Request | Handle | Respond

fun net_step :: "net_label \<Rightarrow> net_state \<Rightarrow> net_state option" where
  "net_step (Proc (CoStep r)) t =
     (if co (proc t) = C_InShutdown \<and> r \<noteq> Some DeadlineExceeded \<and> inflight t \<noteq> 0 then None
      else case serve_step (CoStep r) (proc t) of
             None \<Rightarrow> None
           | Some s' \<Rightarrow> Some (t\<lparr>proc := s'\<rparr>))"
| "net_step (Proc l) t =
     (case serve_step l (proc t) of
        None \<Rightarrow> None
      | Some s' \<Rightarrow> Some (t\<lparr>proc := s'\<rparr>))"
| "net_step Request t =
     (if \<not> exited (proc t) \<and> main (proc t) = M_ListenAndServe \<and> \<not> inShutdown (proc t)
      then Some (t\<lparr>inflight := inflight t + 1\<rparr>)
      else None)"
| "net_step Handle t =
     (if \<not> exited (proc t) \<and> 0 < inflight t then Some t else None)"
| "net_step Respond t =
     (if \<not> exited (proc t) \<and> 0 < inflight t then Some (t\<lparr>inflight := inflight t - 1\<rparr>)
      else None)"

fun net_steps :: "net_label list \<Rightarrow> net_state \<Rightarrow> net_state option" where
  "net_steps [] t = Some t"
| "net_steps (l # ls) t =
     (case net_step l t of
        None \<Rightarrow> None
      | Some t' \<Rightarrow> net_steps ls t')"

inductive net_reachable :: "net_state \<Rightarrow> bool" where
  init: "net_reachable (net_init cancelled)"
| step: "net_reachable t \<Longrightarrow> net_step l t = Some t' \<Longrightarrow> net_reachable t'"

text \<open>Once \<open>Shutdown\<close> has returned anything but the deadline error, no request is in flight.\<close>

definition net_inv :: "net_state \<Rightarrow> bool" where
  "net_inv t =
     ((shutdownResult (proc t) \<noteq> None \<longrightarrow> inShutdown (proc t)) \<and>
      (shutdownResult (proc t) \<noteq> None \<and>
       shutdownResult (proc t) \<noteq> Some (Some DeadlineExceeded) \<longrightarrow> inflight t = 0))"

section \<open>Example runs\<close>

text \<open>
  Concrete clocks, directory contents and notifications, on which the properties below are
  evaluated. \<open>clockAt n\<close> is the reading \<open>n\<close> seconds after the monotonic clock started.
\<close>

definition clockAt :: "int \<Rightarrow> reading" where
  "clockAt n = \<lparr>wallclock = 63900000000 * Second + n * Second, monotonic = n * Second\<rparr>"

definition exampleListing :: "string \<Rightarrow> error + DirEntry list" where
  "exampleListing dir =
     (if dir = ''/etc/auth''
      then Inr [\<lparr>Name = ''b.env'', IsDir = False\<rparr>, \<lparr>Name = ''sub.env'', IsDir = True\<rparr>,
                \<lparr>Name = ''notes.txt'', IsDir = False\<rparr>, \<lparr>Name = ''a.env'', IsDir = False\<rparr>]
      else Inl (ErrorString ''no such file or directory''))"

definition exampleWorld :: "int \<Rightarrow> (string list \<Rightarrow> error + string list) \<Rightarrow> string list world" where
  "exampleWorld n loader =
     \<lparr>clock = clockAt n, addErr = None, dirents = exampleListing, LoadGlobalFiles = loader\<rparr>"

definition exampleEvent :: "string \<Rightarrow> Op \<Rightarrow> int \<Rightarrow> string list chosen" where
  "exampleEvent name op n = WrEvents (Some \<lparr>evt_Name = name, evt_Op = op\<rparr>) (clockAt n)"

definition exampleStart :: startup where
  "exampleStart = \<lparr>newWatcher = None, firstAdd = None\<rparr>"

definition exampleRun :: "string list chosen list" where
  "exampleRun =
     [exampleEvent ''/etc/auth/a.env'' Create 0,
      exampleEvent ''/etc/auth/b.env'' Write 1,
      TrC (exampleWorld 10 Inr),
      TrC (exampleWorld 11 Inr),
      exampleEvent ''/etc/auth/b.env'' Remove 11,
      TrC (exampleWorld 12 Inr),
      TrC (exampleWorld 21 Inr)]"

definition failingLoader :: "string list \<Rightarrow> error + string list" where
  "failingLoader paths = Inl (ErrorString ''parse error'')"

definition exampleServeRun :: "label list" where
  "exampleServeRun =
     [MainStep None, MainStep None, MainStep None, CtxCancel, CoStep None, CoStep None,
      MainStep (Some ErrServerClosed), CoStep (Some DeadlineExceeded), CoStep None,
      CoStep None, CoStep None, MainStep None, MainStep None, MainStep None]"

definition exampleServeEnd :: serve_state where
  "exampleServeEnd =
     \<lparr>main = M_Returned, co = C_Finished, wg = 0, ctxDone = True, inShutdown = True,
      shutdownTimeout = Some 60000000000, shutdownResult = Some (Some DeadlineExceeded),
      baseDone = True, dbClosed = True, exited = False,
      logged = [LogFailed ''shutdown failed'' DeadlineExceeded]\<rparr>"

definition exampleServeWaiting :: serve_state where
  "exampleServeWaiting =
     \<lparr>main = M_Wait, co = C_InShutdown, wg = 1, ctxDone = True, inShutdown = True,
      shutdownTimeout = Some 60000000000, shutdownResult = None,
      baseDone = False, dbClosed = False, exited = False, logged = []\<rparr>"

definition exampleTimeoutRun :: "net_label list" where
  "exampleTimeoutRun =
     [Proc (MainStep None), Proc (MainStep None), Proc (MainStep None), Request, Handle,
      Proc CtxCancel, Proc (CoStep None), Proc (CoStep None),
      Proc (MainStep (Some ErrServerClosed)), Handle, Proc (CoStep (Some DeadlineExceeded)),
      Proc (CoStep None), Proc (CoStep None), Proc (CoStep None),
      Proc (MainStep None), Proc (MainStep None), Proc (MainStep None)]"

definition exampleTimeoutEnd :: net_state where
  "exampleTimeoutEnd = \<lparr>proc = exampleServeEnd, inflight = 1\<rparr>"

definition exampleCleanRun :: "net_label list" where
  "exampleCleanRun =
     [Proc (MainStep None), Proc (MainStep None), Proc (MainStep None), Request, Handle,
      Proc CtxCancel, Proc (CoStep None), Proc (CoStep None),
      Proc (MainStep (Some ErrServerClosed)), Handle, Respond, Proc (CoStep None),
      Proc (CoStep None), Proc (CoStep None), Proc (CoStep None),
      Proc (MainStep None), Proc (MainStep None), Proc (MainStep None)]"

definition exampleCleanEnd :: net_state where
  "exampleCleanEnd =
     \<lparr>proc = \<lparr>main = M_Returned, co = C_Finished, wg = 0, ctxDone = True, inShutdown = True,
        shutdownTimeout = Some 60000000000, shutdownResult = Some None,
        baseDone = True, dbClosed = True, exited = False, logged = []\<rparr>,
      inflight = 0\<rparr>"

definition exampleNetWaiting :: net_state where
  "exampleNetWaiting = \<lparr>proc = exampleServeWaiting, inflight = 1\<rparr>"

section \<open>Properties of the library model\<close>

subsection \<open>Times\<close>

lemma IsZero_zeroTime: "IsZero zeroTime"
  by (simp add: IsZero_def zeroTime_def)

lemma saturate_ge:
  assumes "0 \<le> d" and "r \<le> saturate d" and "0 < r"
  shows "r \<le> d"
  using assms by (auto simp: saturate_def minDuration_def maxDuration_def split: if_splits)

lemma saturate_le:
  assumes "r \<le> d" and "r \<le> maxDuration"
  shows "r \<le> saturate d"
  using assms by (auto simp: saturate_def minDuration_def maxDuration_def)

text \<open>Saturation never changes a comparison with a duration above the least one.\<close>

lemma saturate_less_iff:
  assumes "minDuration < r" and "r \<le> maxDuration"
  shows "(saturate d < r) = (d < r)"
  using assms by (auto simp: saturate_def minDuration_def maxDuration_def)

lemma Sub_Now: "Sub (Now a) (Now u) = saturate (monotonic a - monotonic u)"
  by (simp add: Sub_def Now_def)

lemma reloadCheckAt_IsZero: "IsZero lastUpdate \<Longrightarrow> \<not> reloadCheckAt rl at lastUpdate"
  by (simp add: reloadCheckAt_def)

lemma reloadCheckAt_elapsed:
  assumes "wallclock now \<noteq> 0" and "reloadIval rl \<le> monotonic at - monotonic now"
    and "reloadIval rl \<le> maxDuration"
  shows "reloadCheckAt rl (Now at) (Now now)"
proof -
  from assms(1) have "\<not> IsZero (Now now)"
    by (simp add: IsZero_def Now_def)
  moreover from saturate_le [OF assms(2,3)] have "\<not> Sub (Now at) (Now now) < reloadIval rl"
    by (simp add: Sub_Now)
  ultimately show ?thesis
    by (simp add: reloadCheckAt_def)
qed

lemma due_gap:
  assumes due: "reloadCheckAt rl (Now a) lastUpdate"
    and pending: "lastUpdate = zeroTime \<or>
                  (\<exists>u. lastUpdate = Now u \<and> p \<le> monotonic u \<and> monotonic u \<le> monotonic a)"
  shows "p + reloadIval rl \<le> monotonic a"
proof -
  from due have nz: "\<not> IsZero lastUpdate"
    by (simp add: reloadCheckAt_def split: if_splits)
  from due have ge: "reloadIval rl \<le> Sub (Now a) lastUpdate"
    by (simp add: reloadCheckAt_def split: if_splits)
  from nz have "lastUpdate \<noteq> zeroTime"
    using IsZero_zeroTime by blast
  with pending obtain u where u: "lastUpdate = Now u" and pu: "p \<le> monotonic u"
    and ua: "monotonic u \<le> monotonic a"
    by blast
  show ?thesis
  proof (cases "0 < reloadIval rl")
    case True
    from ge have sat: "reloadIval rl \<le> saturate (monotonic a - monotonic u)"
      unfolding u Sub_Now .
    from ua have nonneg: "0 \<le> monotonic a - monotonic u" by simp
    from saturate_ge [OF nonneg sat True]
    have "reloadIval rl \<le> monotonic a - monotonic u" .
    with pu show ?thesis by simp
  next
    case False
    with pu ua show ?thesis by simp
  qed
qed

subsection \<open>Notification operations\<close>

text \<open>
  The operations tested by \<open>Watch\<close> are single bits, for which the two ways of testing a
  bit mask, \<open>op & h != 0\<close> and \<open>op & h == h\<close>, agree.
\<close>

lemma and_exp_cases:
  fixes w :: "32 word"
  assumes "k < 32"
  shows "(w AND 2 ^ k \<noteq> 0) = (w AND 2 ^ k = 2 ^ k)"
proof
  assume "w AND 2 ^ k \<noteq> 0"
  then have "bit w k" by (simp add: and_exp_eq_0_iff_not_bit)
  then show "w AND 2 ^ k = 2 ^ k"
    by (intro bit_eqI) (auto simp: bit_simps)
next
  assume "w AND 2 ^ k = 2 ^ k"
  moreover have "(2 :: 32 word) ^ k \<noteq> 0"
    using assms by simp
  ultimately show "w AND 2 ^ k \<noteq> 0" by simp
qed

lemma Has_one_bit:
  "Has op Create = (op AND Create = Create)"
  "Has op Write = (op AND Write = Write)"
  "Has op Remove = (op AND Remove = Remove)"
  "Has op Rename = (op AND Rename = Rename)"
  using and_exp_cases [of 0 op] and_exp_cases [of 1 op] and_exp_cases [of 2 op]
    and_exp_cases [of 3 op]
  by (simp_all add: Has_def Create_def Write_def Remove_def Rename_def)

subsection \<open>Joining a name to a directory path\<close>

text \<open>
  For a directory path that is already clean, and is neither the root nor \<open>.\<close>,
  \<open>filepath.Join\<close> of the path and a file name is the path, a separator and the name.
\<close>

lemma splitSep_nonempty: "splitSep p \<noteq> []"
  by (induction p) (auto split: list.splits)

lemma splitSep_append: "splitSep (a @ CHR ''/'' # b) = splitSep a @ splitSep b"
proof (induction a)
  case Nil
  show ?case by simp
next
  case (Cons c a)
  obtain e es where "splitSep a = e # es"
    using splitSep_nonempty [of a] by (cases "splitSep a") auto
  with Cons show ?case by simp
qed

lemma splitSep_plain: "CHR ''/'' \<notin> set n \<Longrightarrow> splitSep n = [n]"
  by (induction n) auto

lemma splitSep_no_sep: "e \<in> set (splitSep p) \<Longrightarrow> CHR ''/'' \<notin> set e"
proof (induction p arbitrary: e)
  case Nil
  then show ?case by simp
next
  case (Cons c p)
  obtain x xs where x: "splitSep p = x # xs"
    using splitSep_nonempty [of p] by (cases "splitSep p") auto
  show ?case
  proof (cases "c = CHR ''/''")
    case True
    with Cons show ?thesis by auto
  next
    case False
    with Cons.prems x have "e = c # x \<or> e \<in> set xs" by simp
    with Cons.IH x False show ?thesis by auto
  qed
qed

lemma cleanElems_one:
  "cleanElems rooted out [x] =
     (if x = [] \<or> x = ''.'' then out
      else if x = ''..'' then
        (if out \<noteq> [] \<and> last out \<noteq> ''..'' then butlast out
         else if \<not> rooted then out @ [''..'']
         else out)
      else out @ [x])"
  by simp

lemma cleanElems_Cons:
  "cleanElems rooted out (x # xs) = cleanElems rooted (cleanElems rooted out [x]) xs"
  by simp

lemma cleanElems_append:
  "cleanElems rooted out (xs @ ys) = cleanElems rooted (cleanElems rooted out xs) ys"
proof (induction xs arbitrary: out)
  case Nil
  show ?case by simp
next
  case (Cons x xs)
  have "cleanElems rooted out ((x # xs) @ ys)
      = cleanElems rooted (cleanElems rooted out [x]) (xs @ ys)"
    by (subst cleanElems_Cons [symmetric]) simp
  also have "\<dots> = cleanElems rooted (cleanElems rooted (cleanElems rooted out [x]) xs) ys"
    by (rule Cons.IH)
  also have "cleanElems rooted (cleanElems rooted out [x]) xs = cleanElems rooted out (x # xs)"
    by (rule cleanElems_Cons [symmetric])
  finally show ?case .
qed

lemma cleanElems_one_proper:
  assumes "\<forall>e \<in> set out. e \<noteq> [] \<and> e \<noteq> ''.''"
  shows "\<forall>e \<in> set (cleanElems rooted out [x]). e \<noteq> [] \<and> e \<noteq> ''.''"
proof -
  have "\<forall>e \<in> set (butlast out). e \<noteq> [] \<and> e \<noteq> ''.''"
    using assms by (meson in_set_butlastD)
  with assms show ?thesis
    unfolding cleanElems_one by auto
qed

lemma cleanElems_proper:
  assumes "\<forall>e \<in> set out. e \<noteq> [] \<and> e \<noteq> ''.''"
  shows "\<forall>e \<in> set (cleanElems rooted out xs). e \<noteq> [] \<and> e \<noteq> ''.''"
  using assms
proof (induction xs arbitrary: out)
  case Nil
  then show ?case by simp
next
  case (Cons x xs)
  from cleanElems_one_proper [OF Cons.prems]
  have "\<forall>e \<in> set (cleanElems rooted out [x]). e \<noteq> [] \<and> e \<noteq> ''.''" .
  from Cons.IH [OF this] show ?case
    by (subst cleanElems_Cons)
qed

lemma cleanElems_one_nosep:
  assumes "\<forall>e \<in> set out. CHR ''/'' \<notin> set e" and "CHR ''/'' \<notin> set x"
  shows "\<forall>e \<in> set (cleanElems rooted out [x]). CHR ''/'' \<notin> set e"
proof -
  have "\<forall>e \<in> set (butlast out). CHR ''/'' \<notin> set e"
    using assms(1) by (meson in_set_butlastD)
  with assms show ?thesis
    unfolding cleanElems_one by auto
qed

lemma cleanElems_nosep:
  assumes "\<forall>e \<in> set out. CHR ''/'' \<notin> set e" and "\<forall>x \<in> set xs. CHR ''/'' \<notin> set x"
  shows "\<forall>e \<in> set (cleanElems rooted out xs). CHR ''/'' \<notin> set e"
  using assms
proof (induction xs arbitrary: out)
  case Nil
  then show ?case by simp
next
  case (Cons x xs)
  from Cons.prems(2) have x: "CHR ''/'' \<notin> set x" and xs: "\<forall>x \<in> set xs. CHR ''/'' \<notin> set x"
    by simp_all
  from cleanElems_one_nosep [OF Cons.prems(1) x]
  have "\<forall>e \<in> set (cleanElems rooted out [x]). CHR ''/'' \<notin> set e" .
  from Cons.IH [OF this xs] show ?case
    by (subst cleanElems_Cons)
qed

lemma joinSep_snoc: "joinSep (out @ [n]) = (if out = [] then n else joinSep out @ ''/'' @ n)"
  by (induction out rule: joinSep.induct) simp_all

lemma joinSep_hd:
  "out \<noteq> [] \<Longrightarrow> hd out \<noteq> [] \<Longrightarrow> joinSep out \<noteq> [] \<and> hd (joinSep out) = hd (hd out)"
  by (induction out rule: joinSep.induct) simp_all

lemma joinSep_dot:
  assumes "\<forall>e \<in> set out. e \<noteq> [] \<and> e \<noteq> ''.''"
  shows "joinSep out \<noteq> ''.''"
proof (cases out rule: joinSep.cases)
  case 1
  then show ?thesis by simp
next
  case (2 e)
  with assms show ?thesis by simp
next
  case (3 e v va)
  with assms have "e \<noteq> []" by simp
  then have "e @ ''/'' @ joinSep (v # va) \<noteq> ''.''"
    by (cases e) simp_all
  with 3 show ?thesis by simp
qed

lemma Clean_Join_plain:
  assumes d: "d \<noteq> []" and n: "CHR ''/'' \<notin> set n" "n \<noteq> []" "n \<noteq> ''.''" "n \<noteq> ''..''"
  shows "Join [d, n] =
           (if Clean d = ''/'' then ''/'' @ n
            else if Clean d = ''.'' then n
            else Clean d @ ''/'' @ n)"
proof -
  define rooted where "rooted = (hd d = CHR ''/'')"
  define out where "out = cleanElems rooted [] (splitSep d)"
  have proper: "\<forall>e \<in> set out. e \<noteq> [] \<and> e \<noteq> ''.''"
    unfolding out_def by (rule cleanElems_proper) simp
  have nosep: "\<forall>e \<in> set out. CHR ''/'' \<notin> set e"
    unfolding out_def by (rule cleanElems_nosep) (simp_all add: splitSep_no_sep)
  have cd: "Clean d = (if (if rooted then ''/'' else []) @ joinSep out = [] then ''.''
                       else (if rooted then ''/'' else []) @ joinSep out)"
    using d by (simp add: Clean_def Let_def rooted_def out_def)
  define p where "p = d @ ''/'' @ n"
  have split: "splitSep p = splitSep d @ [n]"
    using splitSep_append [of d n] splitSep_plain [OF n(1)] by (simp add: p_def)
  have "cleanElems rooted [] (splitSep p) = cleanElems rooted out [n]"
    unfolding split cleanElems_append out_def ..
  also have "\<dots> = out @ [n]"
    using n unfolding cleanElems_one by simp
  finally have out': "cleanElems rooted [] (splitSep p) = out @ [n]" .
  have p: "p \<noteq> []" "(hd p = CHR ''/'') = rooted"
    using d by (simp_all add: p_def rooted_def)
  have "joinSep (out @ [n]) \<noteq> []"
    using n(2) by (simp add: joinSep_snoc)
  then have "Clean p = (if rooted then ''/'' else []) @ joinSep (out @ [n])"
    using p by (simp add: Clean_def Let_def out')
  moreover have "Join [d, n] = Clean p"
    using d by (simp add: Join_def p_def)
  ultimately have j: "Join [d, n] = (if rooted then ''/'' else []) @ joinSep (out @ [n])"
    by simp
  show ?thesis
  proof (cases "out = []")
    case True
    with j cd show ?thesis by (simp add: joinSep_snoc)
  next
    case False
    with proper have "hd out \<noteq> []" by (cases out) simp_all
    from joinSep_hd [OF False this] have ne: "joinSep out \<noteq> []"
      and h: "hd (joinSep out) = hd (hd out)" by simp_all
    from nosep False \<open>hd out \<noteq> []\<close> have "hd (hd out) \<noteq> CHR ''/''"
      by (cases out; cases "hd out") auto
    with h ne have nr: "joinSep out \<noteq> ''/''" by auto
    from joinSep_dot [OF proper] have nd: "joinSep out \<noteq> ''.''" .
    from False j cd ne nr nd show ?thesis
      by (cases rooted) (simp_all add: joinSep_snoc)
  qed
qed

lemma HasSuffix_env_plain:
  assumes "HasSuffix n ''.env''"
  shows "n \<noteq> [] \<and> n \<noteq> ''.'' \<and> n \<noteq> ''..''"
proof -
  from assms have "4 \<le> length n" by (simp add: HasSuffix_def)
  then show ?thesis by auto
qed

lemma Join_clean_dir:
  assumes "Clean d = d" and "d \<noteq> ''/''" and "d \<noteq> ''.''"
    and "CHR ''/'' \<notin> set n" and "HasSuffix n ''.env''"
  shows "Join [d, n] = d @ ''/'' @ n"
proof -
  from assms(1) have "d \<noteq> []"
    by (auto simp: Clean_def)
  from Clean_Join_plain [OF this assms(4)] HasSuffix_env_plain [OF assms(5)] assms(1,2,3)
  show ?thesis by simp
qed

section \<open>Properties of the reloader\<close>

subsection \<open>The paths of a reload\<close>

lemma envPaths_filter:
  "envPaths dir ents
     = map (\<lambda>name. Join [dir, name])
         (map Name (filter (\<lambda>ent. \<not> IsDir ent \<and> HasSuffix (Name ent) ''.env'') ents))"
  by (induction ents) simp_all

lemma sorted_names:
  "sorted (map Name (filter P (sort_key Name ents)))"
  by (rule sorted_filter) simp

lemma reloadConfig_quiet:
  "attempts (snd (reloadConfig w rl)) = [] \<and> configs (snd (reloadConfig w rl)) = []"
  by (simp add: reloadConfig_def Let_def split: sum.splits)

subsection \<open>Effects\<close>

lemma attempts_append: "attempts (xs @ ys) = attempts xs @ attempts ys"
  by (induction xs rule: attempts.induct) simp_all

lemma loaderCalls_append: "loaderCalls (xs @ ys) = loaderCalls xs @ loaderCalls ys"
  by (induction xs rule: loaderCalls.induct) simp_all

lemma configs_append: "configs (xs @ ys) = configs xs @ configs ys"
  by (induction xs rule: configs.induct) simp_all

lemma attempts_watchAdd: "attempts (watchAdd rl r) = []"
  by (simp add: watchAdd_def split: option.splits)

lemma watchAdd_quiet:
  "loaderCalls (watchAdd rl r) = [] \<and> configs (watchAdd rl r) = []"
  by (simp add: watchAdd_def split: option.splits)

subsection \<open>One pass through the select\<close>

text \<open>What one pass through the select does to the pending change and to the attempts.\<close>

lemma Watch_select_tick_due:
  assumes "reloadCheckAt rl (Now (clock w)) lastUpdate"
  shows "\<exists>effs. Watch_select rl lastUpdate (TrC w) = (Continue, zeroTime, effs) \<and>
           attempts effs = [clock w]"
  using assms
  by (auto simp: attempts_append attempts_watchAdd Let_def reloadConfig_def
      split: sum.splits prod.splits)

lemma Watch_select_due:
  assumes "reloadCheckAt rl (Now (clock w)) lastUpdate"
  shows "Watch_select rl lastUpdate (TrC w) =
           (Continue, zeroTime,
            watchAdd rl (addErr w) @ ReloadAttempt (clock w) # snd (reloadConfig w rl) @
            [case fst (reloadConfig w rl) of
               Inl err \<Rightarrow> LogWithError (Some err) ''config reload failed''
             | Inr cfg \<Rightarrow> ConfigFn cfg])"
proof -
  obtain r effs where rc: "reloadConfig w rl = (r, effs)"
    by (cases "reloadConfig w rl") auto
  with assms show ?thesis
    by (cases r) simp_all
qed

lemma Watch_select_other:
  assumes "\<forall>w. c \<noteq> TrC w" and "Watch_select rl lastUpdate c = (f, lastUpdate', effs)"
  shows "attempts effs = [] \<and> (lastUpdate' = lastUpdate \<or> (\<exists>e now. c = WrEvents (Some e) now \<and> lastUpdate' = Now now))"
  using assms by (cases "(rl, lastUpdate, c)" rule: Watch_select.cases) (auto split: if_splits)

lemma Watch_select_flow:
  "Watch_select rl lastUpdate c = (f, lastUpdate', effs) \<Longrightarrow>
     (f = Continue) = (\<not> ending c)"
proof (cases "(rl, lastUpdate, c)" rule: Watch_select.cases)
  case (2 rl' lastUpdate'' w)
  assume a: "Watch_select rl lastUpdate c = (f, lastUpdate', effs)"
  obtain r es where "reloadConfig w rl = (r, es)" by (cases "reloadConfig w rl") auto
  with a 2 show ?thesis
    by (cases r) (auto split: if_splits)
qed (auto split: if_splits)

lemma Watch_select_Return:
  assumes "Watch_select rl lastUpdate c = (Return r, lastUpdate', effs)"
  shows "attempts effs = [] \<and> lastUpdate' = lastUpdate"
proof (cases "\<exists>w. c = TrC w")
  case True
  with Watch_select_flow [OF assms] show ?thesis by auto
next
  case False
  with assms show ?thesis
    by (cases "(rl, lastUpdate, c)" rule: Watch_select.cases) (auto split: if_splits)
qed

lemma Watch_select_quiet:
  assumes "IsZero lastUpdate" and "\<not> qualifying c"
    and "Watch_select rl lastUpdate c = (f, lastUpdate', effs)"
  shows "lastUpdate' = lastUpdate \<and> attempts effs = [] \<and> loaderCalls effs = [] \<and>
         configs effs = []"
proof (cases "\<exists>w. c = TrC w")
  case True
  then obtain w where "c = TrC w" ..
  with assms(3) reloadCheckAt_IsZero [OF assms(1)] show ?thesis
    by (auto simp: attempts_watchAdd watchAdd_quiet)
next
  case False
  with assms(2,3) show ?thesis
    by (cases "(rl, lastUpdate, c)" rule: Watch_select.cases) (auto split: if_splits)
qed

lemma Watch_select_idle:
  assumes "\<not> qualifying c"
    and "\<forall>w. c = TrC w \<longrightarrow> \<not> reloadCheckAt rl (Now (clock w)) lastUpdate"
    and "Watch_select rl lastUpdate c = (f, lastUpdate', effs)"
  shows "lastUpdate' = lastUpdate \<and> attempts effs = [] \<and> loaderCalls effs = [] \<and>
         configs effs = []"
proof (cases "\<exists>w. c = TrC w")
  case True
  then obtain w where "c = TrC w" ..
  with assms(2,3) show ?thesis
    by (auto simp: attempts_watchAdd watchAdd_quiet)
next
  case False
  with assms(1,3) show ?thesis
    by (cases "(rl, lastUpdate, c)" rule: Watch_select.cases) (auto split: if_splits)
qed

lemma Watch_select_qualifying:
  "qualifying (WrEvents (Some evt) now) \<Longrightarrow>
     Watch_select rl lastUpdate (WrEvents (Some evt) now) = (Continue, Now now, [])"
  by auto

subsection \<open>Runs of the loop\<close>

lemma Watch_loop_Continue:
  assumes "Watch_select rl lastUpdate c = (Continue, lastUpdate1, effs1)"
    and "Watch_loop rl lastUpdate1 cs = (out, lastUpdate2, effs2)"
  shows "Watch_loop rl lastUpdate (c # cs) = (out, lastUpdate2, effs1 @ effs2)"
  using assms by simp

lemma Watch_loop_after_due:
  assumes due: "reloadCheckAt rl (Now (clock w)) lastUpdate"
    and rest: "Watch_loop rl zeroTime cs = (out, lastUpdate', effs)"
  shows "Watch_loop rl lastUpdate (TrC w # cs) =
           (out, lastUpdate',
            (watchAdd rl (addErr w) @ ReloadAttempt (clock w) # snd (reloadConfig w rl) @
             [case fst (reloadConfig w rl) of
                Inl err \<Rightarrow> LogWithError (Some err) ''config reload failed''
              | Inr cfg \<Rightarrow> ConfigFn cfg]) @ effs)"
  using Watch_loop_Continue [OF Watch_select_due [OF due] rest] .

lemma Watch_loop_append:
  assumes "\<forall>c \<in> set pre. \<not> ending c"
  shows "\<exists>lastUpdate1 effs1.
           Watch_loop rl lastUpdate pre = (Waiting, lastUpdate1, effs1) \<and>
           (\<forall>rest. Watch_loop rl lastUpdate (pre @ rest)
              = (case Watch_loop rl lastUpdate1 rest of
                   (out, lastUpdate2, effs2) \<Rightarrow> (out, lastUpdate2, effs1 @ effs2)))"
  using assms
proof (induction pre arbitrary: lastUpdate)
  case Nil
  then show ?case by simp
next
  case (Cons c pre)
  obtain f lastUpdate0 effs0 where sel: "Watch_select rl lastUpdate c = (f, lastUpdate0, effs0)"
    by (cases "Watch_select rl lastUpdate c") auto
  from Cons.prems have "\<not> ending c" by simp
  with Watch_select_flow [OF sel] have f: "f = Continue" by simp
  from Cons.prems have "\<forall>c \<in> set pre. \<not> ending c" by simp
  from Cons.IH [OF this, of lastUpdate0] obtain lastUpdate1 effs1 where
    ih: "Watch_loop rl lastUpdate0 pre = (Waiting, lastUpdate1, effs1)"
      "\<forall>rest. Watch_loop rl lastUpdate0 (pre @ rest)
              = (case Watch_loop rl lastUpdate1 rest of
                   (out, lastUpdate2, effs2) \<Rightarrow> (out, lastUpdate2, effs1 @ effs2))"
    by blast
  from sel f ih(1) have "Watch_loop rl lastUpdate (c # pre) = (Waiting, lastUpdate1, effs0 @ effs1)"
    by simp
  moreover from sel f ih(2) have "\<forall>rest. Watch_loop rl lastUpdate ((c # pre) @ rest)
              = (case Watch_loop rl lastUpdate1 rest of
                   (out, lastUpdate2, effs2) \<Rightarrow> (out, lastUpdate2, (effs0 @ effs1) @ effs2))"
    by (simp split: prod.splits)
  ultimately show ?case by blast
qed

lemma Watch_started:
  assumes "newWatcher st = None" and "0 < tickerIval rl"
  shows "fst (Watch rl st cs) = fst (Watch_loop rl zeroTime cs)"
  using assms by (simp add: Watch_def split: prod.splits)

lemma Watch_loop_quiet:
  assumes "IsZero lastUpdate" and "\<forall>c \<in> set cs. \<not> qualifying c"
    and "Watch_loop rl lastUpdate cs = (out, lastUpdate', effs)"
  shows "lastUpdate' = lastUpdate \<and> attempts effs = [] \<and> loaderCalls effs = [] \<and>
         configs effs = []"
  using assms
proof (induction cs arbitrary: out lastUpdate' effs)
  case Nil
  then show ?case by simp
next
  case (Cons c cs)
  obtain f lastUpdate1 effs1 where sel: "Watch_select rl lastUpdate c = (f, lastUpdate1, effs1)"
    by (cases "Watch_select rl lastUpdate c") auto
  from Cons.prems(2) have nq: "\<not> qualifying c" by simp
  note q = Watch_select_quiet [OF Cons.prems(1) nq sel]
  show ?case
  proof (cases f)
    case (Return r)
    with sel Cons.prems(3) q show ?thesis by simp
  next
    case Continue
    obtain out2 lastUpdate2 effs2 where
      rest: "Watch_loop rl lastUpdate cs = (out2, lastUpdate2, effs2)"
      by (cases "Watch_loop rl lastUpdate cs") auto
    from Cons.prems(2) have "\<forall>c \<in> set cs. \<not> qualifying c" by simp
    from Cons.IH [OF Cons.prems(1) this rest] q sel Continue rest Cons.prems(3)
    show ?thesis
      by (auto simp: attempts_append loaderCalls_append configs_append)
  qed
qed

lemma Watch_loop_quiet_append:
  assumes "IsZero lastUpdate" and "\<forall>c \<in> set mid. \<not> qualifying c \<and> \<not> ending c"
    and "Watch_loop rl lastUpdate rest = (out, lastUpdate', effs2)"
  shows "\<exists>effs1. Watch_loop rl lastUpdate (mid @ rest) = (out, lastUpdate', effs1 @ effs2) \<and>
           attempts effs1 = [] \<and> loaderCalls effs1 = [] \<and> configs effs1 = []"
  using assms(2)
proof (induction mid)
  case Nil
  with assms(3) show ?case by simp
next
  case (Cons c mid)
  obtain f lastUpdate1 effs1 where sel: "Watch_select rl lastUpdate c = (f, lastUpdate1, effs1)"
    by (cases "Watch_select rl lastUpdate c") auto
  from Cons.prems have nq: "\<not> qualifying c" and ne: "\<not> ending c" by simp_all
  note q = Watch_select_quiet [OF assms(1) nq sel]
  from Watch_select_flow [OF sel] ne have f: "f = Continue" by simp
  from Cons.prems have "\<forall>c \<in> set mid. \<not> qualifying c \<and> \<not> ending c" by simp
  from Cons.IH [OF this] obtain effs' where
    ih: "Watch_loop rl lastUpdate (mid @ rest) = (out, lastUpdate', effs' @ effs2)"
      "attempts effs' = []" "loaderCalls effs' = []" "configs effs' = []"
    by blast
  from sel f q ih(1) have "Watch_loop rl lastUpdate ((c # mid) @ rest)
      = (out, lastUpdate', (effs1 @ effs') @ effs2)"
    by simp
  moreover from q ih have "attempts (effs1 @ effs') = [] \<and> loaderCalls (effs1 @ effs') = [] \<and>
      configs (effs1 @ effs') = []"
    by (simp add: attempts_append loaderCalls_append configs_append)
  ultimately show ?case by blast
qed

lemma Watch_loop_idle_append:
  assumes "\<forall>c \<in> set mid. \<not> qualifying c \<and> \<not> ending c \<and>
             (\<forall>w. c = TrC w \<longrightarrow> \<not> reloadCheckAt rl (Now (clock w)) lastUpdate)"
    and "Watch_loop rl lastUpdate rest = (out, lastUpdate', effs2)"
  shows "\<exists>effs1. Watch_loop rl lastUpdate (mid @ rest) = (out, lastUpdate', effs1 @ effs2) \<and>
           attempts effs1 = [] \<and> loaderCalls effs1 = [] \<and> configs effs1 = []"
  using assms(1)
proof (induction mid)
  case Nil
  with assms(2) show ?case by simp
next
  case (Cons c mid)
  obtain f lastUpdate1 effs1 where sel: "Watch_select rl lastUpdate c = (f, lastUpdate1, effs1)"
    by (cases "Watch_select rl lastUpdate c") auto
  from Cons.prems have nq: "\<not> qualifying c" and ne: "\<not> ending c"
    and nd: "\<forall>w. c = TrC w \<longrightarrow> \<not> reloadCheckAt rl (Now (clock w)) lastUpdate"
    by simp_all
  note q = Watch_select_idle [OF nq nd sel]
  from Watch_select_flow [OF sel] ne have f: "f = Continue" by simp
  from Cons.prems have "\<forall>c \<in> set mid. \<not> qualifying c \<and> \<not> ending c \<and>
             (\<forall>w. c = TrC w \<longrightarrow> \<not> reloadCheckAt rl (Now (clock w)) lastUpdate)"
    by simp
  from Cons.IH [OF this] obtain effs' where
    ih: "Watch_loop rl lastUpdate (mid @ rest) = (out, lastUpdate', effs' @ effs2)"
      "attempts effs' = []" "loaderCalls effs' = []" "configs effs' = []"
    by blast
  from sel f q ih(1) have "Watch_loop rl lastUpdate ((c # mid) @ rest)
      = (out, lastUpdate', (effs1 @ effs') @ effs2)"
    by simp
  moreover from q ih have "attempts (effs1 @ effs') = [] \<and> loaderCalls (effs1 @ effs') = [] \<and>
      configs (effs1 @ effs') = []"
    by (simp add: attempts_append loaderCalls_append configs_append)
  ultimately show ?case by blast
qed

lemma readings_qualifying:
  "evs \<noteq> [] \<Longrightarrow> \<forall>c \<in> set evs. qualifying c \<Longrightarrow> readings evs \<noteq> []"
  by (cases evs rule: readings.cases) auto

lemma Watch_loop_burst:
  assumes "evs \<noteq> []" and "\<forall>c \<in> set evs. qualifying c"
  shows "Watch_loop rl lastUpdate evs = (Waiting, Now (last (readings evs)), [])"
  using assms
proof (induction evs arbitrary: lastUpdate)
  case Nil
  then show ?case by simp
next
  case (Cons c evs)
  from Cons.prems(2) have "qualifying c" by simp
  then obtain evt now where c: "c = WrEvents (Some evt) now"
    by (cases "c" rule: qualifying.cases) auto
  with \<open>qualifying c\<close> have sel: "Watch_select rl lastUpdate c = (Continue, Now now, [])"
    using Watch_select_qualifying by blast
  show ?case
  proof (cases "evs = []")
    case True
    with sel c show ?thesis by simp
  next
    case False
    from Cons.prems(2) have "\<forall>c \<in> set evs. qualifying c" by simp
    from readings_qualifying [OF False this] have "readings evs \<noteq> []" .
    with Cons.IH [OF False \<open>\<forall>c \<in> set evs. qualifying c\<close>, of "Now now"] sel c
    show ?thesis by simp
  qed
qed

lemma Watch_loop_separated:
  assumes "sorted (map monotonic (readings cs))"
    and "\<forall>x \<in> set (readings cs). p \<le> monotonic x"
    and "lastUpdate = zeroTime \<or>
         (\<exists>u. lastUpdate = Now u \<and> p \<le> monotonic u \<and>
              (\<forall>x \<in> set (readings cs). monotonic u \<le> monotonic x))"
    and "Watch_loop rl lastUpdate cs = (out, lastUpdate', effs)"
  shows "separated (reloadIval rl) (attempts effs) \<and>
         (\<forall>a \<in> set (attempts effs). p + reloadIval rl \<le> monotonic a)"
  using assms
proof (induction cs arbitrary: p lastUpdate out lastUpdate' effs)
  case Nil
  then show ?case by simp
next
  case (Cons c cs)
  obtain f lastUpdate1 effs1 where sel: "Watch_select rl lastUpdate c = (f, lastUpdate1, effs1)"
    by (cases "Watch_select rl lastUpdate c") auto
  show ?case
  proof (cases f)
    case (Return r)
    with sel Cons.prems(4) have "effs = effs1" by simp
    moreover from sel Return have "attempts effs1 = []"
      using Watch_select_Return by blast
    ultimately show ?thesis by simp
  next
    case Continue
    obtain out2 lastUpdate2 effs2 where
      rest: "Watch_loop rl lastUpdate1 cs = (out2, lastUpdate2, effs2)"
      by (cases "Watch_loop rl lastUpdate1 cs") auto
    with sel Continue Cons.prems(4) have effs: "effs = effs1 @ effs2"
      by simp
    show ?thesis
    proof (cases "\<exists>w. c = TrC w \<and> reloadCheckAt rl (Now (clock w)) lastUpdate")
      case True
      then obtain w where w: "c = TrC w" "reloadCheckAt rl (Now (clock w)) lastUpdate"
        by blast
      from Watch_select_tick_due [OF w(2)] sel w(1)
      have s1: "lastUpdate1 = zeroTime" "attempts effs1 = [clock w]" by auto
      from Cons.prems(1) w(1) have sorted: "sorted (map monotonic (readings cs))"
        and later: "\<forall>x \<in> set (readings cs). monotonic (clock w) \<le> monotonic x"
        by auto
      from Cons.IH [OF sorted later _ rest [unfolded s1(1)]]
      have ih: "separated (reloadIval rl) (attempts effs2)"
        "\<forall>a \<in> set (attempts effs2). monotonic (clock w) + reloadIval rl \<le> monotonic a"
        by auto
      from Cons.prems(2) w(1) have pw: "p \<le> monotonic (clock w)" by simp
      from Cons.prems(3) w(1)
      have "lastUpdate = zeroTime \<or>
            (\<exists>u. lastUpdate = Now u \<and> p \<le> monotonic u \<and> monotonic u \<le> monotonic (clock w))"
        by auto
      from due_gap [OF w(2) this] have first: "p + reloadIval rl \<le> monotonic (clock w)" .
      from ih pw first show ?thesis
        by (auto simp: effs attempts_append s1(2))
    next
      case False
      have sorted: "sorted (map monotonic (readings cs))"
        using Cons.prems(1) by (cases c) auto
      have sub: "set (readings cs) \<subseteq> set (readings (c # cs))"
        by (cases c) auto
      have hd_le: "\<forall>e now. c = WrEvents e now \<longrightarrow>
                     (\<forall>x \<in> set (readings cs). monotonic now \<le> monotonic x)"
        using Cons.prems(1) by auto
      have bound: "\<forall>x \<in> set (readings cs). p \<le> monotonic x"
        using Cons.prems(2) sub by blast
      have a1: "attempts effs1 = []" and
        l1: "lastUpdate1 = lastUpdate \<or> (\<exists>e now. c = WrEvents (Some e) now \<and> lastUpdate1 = Now now)"
      proof -
        show "attempts effs1 = []"
        proof (cases "\<exists>w. c = TrC w")
          case True
          with False sel show ?thesis by (auto simp: attempts_watchAdd)
        next
          case False
          with Watch_select_other [OF _ sel] show ?thesis by simp
        qed
        show "lastUpdate1 = lastUpdate \<or> (\<exists>e now. c = WrEvents (Some e) now \<and> lastUpdate1 = Now now)"
        proof (cases "\<exists>w. c = TrC w")
          case True
          with False sel show ?thesis by auto
        next
          case False
          with Watch_select_other [OF _ sel] show ?thesis by simp
        qed
      qed
      have pend: "lastUpdate1 = zeroTime \<or>
         (\<exists>u. lastUpdate1 = Now u \<and> p \<le> monotonic u \<and>
              (\<forall>x \<in> set (readings cs). monotonic u \<le> monotonic x))"
      proof (cases "lastUpdate1 = lastUpdate")
        case True
        with Cons.prems(3) sub show ?thesis by blast
      next
        case False
        with l1 obtain e now where c: "c = WrEvents (Some e) now" "lastUpdate1 = Now now"
          by blast
        with Cons.prems(2) have "p \<le> monotonic now" by simp
        with c hd_le show ?thesis by blast
      qed
      from Cons.IH [OF sorted bound pend rest] a1 show ?thesis
        by (simp add: effs attempts_append)
    qed
  qed
qed

lemma separated_nth:
  "separated d as \<Longrightarrow> i < j \<Longrightarrow> j < length as \<Longrightarrow> d \<le> monotonic (as ! j) - monotonic (as ! i)"
proof (induction as arbitrary: i j)
  case Nil
  then show ?case by simp
next
  case (Cons a as)
  show ?case
  proof (cases i)
    case 0
    with Cons.prems obtain k where "j = Suc k" "k < length as"
      by (cases j) auto
    with Cons.prems(1) 0 show ?thesis by simp
  next
    case (Suc i')
    with Cons.prems obtain k where "j = Suc k" "i' < k" "k < length as"
      by (cases j) auto
    with Cons.IH [of i' k] Cons.prems(1) Suc show ?thesis by simp
  qed
qed

lemma separated_window:
  "separated d as \<Longrightarrow>
     length (filter (\<lambda>a. s \<le> monotonic a \<and> monotonic a < s + d) as) \<le> 1"
proof (induction as)
  case Nil
  then show ?case by simp
next
  case (Cons a as)
  show ?case
  proof (cases "s \<le> monotonic a \<and> monotonic a < s + d")
    case True
    from Cons.prems have "\<forall>b \<in> set as. d \<le> monotonic b - monotonic a"
      by simp
    with True have "\<forall>b \<in> set as. \<not> (s \<le> monotonic b \<and> monotonic b < s + d)"
      by fastforce
    then have "filter (\<lambda>a. s \<le> monotonic a \<and> monotonic a < s + d) as = []"
      by (simp add: filter_empty_conv)
    with True show ?thesis by simp
  next
    case False
    with Cons show ?thesis by auto
  qed
qed

lemma sorted_lower_bound:
  "sorted (map monotonic rs) \<Longrightarrow> \<exists>p. \<forall>x \<in> set rs. p \<le> monotonic x"
  by (cases rs) auto

lemma Watch_separated:
  assumes "sorted (map monotonic (readings cs))"
    and "Watch rl st cs = (out, effs)"
  shows "separated (reloadIval rl) (attempts effs)"
proof (cases "newWatcher st = None \<and> \<not> tickerIval rl \<le> 0")
  case False
  with assms(2) have "effs = []"
    by (auto simp: Watch_def split: option.splits if_splits)
  then show ?thesis by simp
next
  case True
  obtain out' lastUpdate effs' where
    loop: "Watch_loop rl zeroTime cs = (out', lastUpdate, effs')"
    by (cases "Watch_loop rl zeroTime cs") auto
  with True assms(2) have effs: "effs = watchAdd rl (firstAdd st) @ effs'"
    by (auto simp: Watch_def)
  from sorted_lower_bound [OF assms(1)] obtain p where
    "\<forall>x \<in> set (readings cs). p \<le> monotonic x" ..
  from Watch_loop_separated [OF assms(1) this _ loop]
  have "separated (reloadIval rl) (attempts effs')" by simp
  then show ?thesis
    by (simp add: effs attempts_append attempts_watchAdd)
qed

subsection \<open>Reload attempts are at least one reload interval apart\<close>

text \<open>
  C1. For every sequence of filesystem events and ticks handled by \<open>Watch\<close>, with clock
  readings that do not run backwards on the monotonic clock, any two reload attempts (calls
  of \<open>reloadConfig\<close>) are separated by at least \<open>reloadIval\<close>, and so at most one reload
  attempt starts within any time window \<open>[s, s + reloadIval)\<close>.
\<close>

theorem reload_attempts_separated:
  assumes "sorted (map monotonic (readings cs))"
    and "Watch rl st cs = (out, effs)"
  shows "(\<forall>i j. i < j \<and> j < length (attempts effs) \<longrightarrow>
            reloadIval rl \<le> monotonic (attempts effs ! j) - monotonic (attempts effs ! i)) \<and>
         (\<forall>s. length (filter (\<lambda>a. s \<le> monotonic a \<and> monotonic a < s + reloadIval rl)
                        (attempts effs)) \<le> 1)"
  using Watch_separated [OF assms] separated_nth separated_window by blast

theorem reload_attempts_separated_witness:
  "sorted (map monotonic (readings exampleRun)) \<and>
   attempts (snd (Watch (NewReloader ''/etc/auth'') exampleStart exampleRun))
     = [clockAt 11, clockAt 21] \<and>
   reloadIval (NewReloader ''/etc/auth'')
     \<le> monotonic (attempts (snd (Watch (NewReloader ''/etc/auth'') exampleStart exampleRun)) ! 1)
       - monotonic (attempts (snd (Watch (NewReloader ''/etc/auth'') exampleStart exampleRun)) ! 0) \<and>
   length (filter (\<lambda>a. 11 * Second \<le> monotonic a \<and>
                        monotonic a < 11 * Second + reloadIval (NewReloader ''/etc/auth''))
             (attempts (snd (Watch (NewReloader ''/etc/auth'') exampleStart exampleRun)))) \<le> 1"
proof -
  have mono: "sorted (map monotonic (readings exampleRun))"
    by code_simp
  have run: "Watch (NewReloader ''/etc/auth'') exampleStart exampleRun
               = (fst (Watch (NewReloader ''/etc/auth'') exampleStart exampleRun),
                  snd (Watch (NewReloader ''/etc/auth'') exampleStart exampleRun))"
    by simp
  have atts: "attempts (snd (Watch (NewReloader ''/etc/auth'') exampleStart exampleRun))
                = [clockAt 11, clockAt 21]"
    by code_simp
  let ?as = "attempts (snd (Watch (NewReloader ''/etc/auth'') exampleStart exampleRun))"
  note sep = reload_attempts_separated [OF mono run]
  from sep have "0 < (1::nat) \<and> 1 < length ?as \<longrightarrow>
      reloadIval (NewReloader ''/etc/auth'') \<le> monotonic (?as ! 1) - monotonic (?as ! 0)"
    by blast
  then have gap:
    "reloadIval (NewReloader ''/etc/auth'') \<le> monotonic (?as ! 1) - monotonic (?as ! 0)"
    by (simp add: atts)
  from sep have window:
    "length (filter (\<lambda>a. 11 * Second \<le> monotonic a \<and>
                          monotonic a < 11 * Second + reloadIval (NewReloader ''/etc/auth''))
               (attempts (snd (Watch (NewReloader ''/etc/auth'') exampleStart exampleRun)))) \<le> 1"
    by blast
  from mono atts gap window show ?thesis
    by blast
qed

subsection \<open>The reload policy\<close>

text \<open>
  C2. \<open>reloadCheckAt\<close> is a function of its arguments alone. It returns false whenever
  \<open>lastUpdate\<close> is the zero time, whatever \<open>at\<close> is; it returns false whenever
  \<open>at.Sub(lastUpdate)\<close> is strictly less than the reload interval; and it returns
  true in every other case. For two readings of the clock and a reload interval above the
  least duration, \<open>at.Sub(lastUpdate)\<close> compares as the time elapsed on the monotonic clock.
\<close>

theorem reloadCheckAt_cases:
  "(IsZero lastUpdate \<longrightarrow> \<not> reloadCheckAt rl at lastUpdate) \<and>
   (Sub at lastUpdate < reloadIval rl \<longrightarrow> \<not> reloadCheckAt rl at lastUpdate) \<and>
   (\<not> IsZero lastUpdate \<and> \<not> Sub at lastUpdate < reloadIval rl
      \<longrightarrow> reloadCheckAt rl at lastUpdate) \<and>
   (minDuration < reloadIval rl \<and> reloadIval rl \<le> maxDuration \<longrightarrow>
      reloadCheckAt rl (Now a) (Now u)
        = (wallclock u \<noteq> 0 \<and> \<not> monotonic a - monotonic u < reloadIval rl))"
proof -
  have "minDuration < reloadIval rl \<and> reloadIval rl \<le> maxDuration \<longrightarrow>
      reloadCheckAt rl (Now a) (Now u)
        = (wallclock u \<noteq> 0 \<and> \<not> monotonic a - monotonic u < reloadIval rl)"
  proof
    assume "minDuration < reloadIval rl \<and> reloadIval rl \<le> maxDuration"
    then have "(Sub (Now a) (Now u) < reloadIval rl)
        = (monotonic a - monotonic u < reloadIval rl)"
      by (simp add: Sub_Now saturate_less_iff)
    moreover have "IsZero (Now u) = (wallclock u = 0)"
      by (simp add: IsZero_def Now_def)
    ultimately show "reloadCheckAt rl (Now a) (Now u)
        = (wallclock u \<noteq> 0 \<and> \<not> monotonic a - monotonic u < reloadIval rl)"
      by (simp add: reloadCheckAt_def)
  qed
  then show ?thesis
    by (simp add: reloadCheckAt_def)
qed

theorem reloadCheckAt_cases_witness:
  "IsZero zeroTime \<and>
   \<not> reloadCheckAt (NewReloader ''/etc/auth'') (Now (clockAt 10)) zeroTime \<and>
   Sub (Now (clockAt 9)) (Now (clockAt 0)) < reloadIval (NewReloader ''/etc/auth'') \<and>
   \<not> reloadCheckAt (NewReloader ''/etc/auth'') (Now (clockAt 9)) (Now (clockAt 0)) \<and>
   \<not> IsZero (Now (clockAt 0)) \<and>
   \<not> Sub (Now (clockAt 10)) (Now (clockAt 0)) < reloadIval (NewReloader ''/etc/auth'') \<and>
   reloadCheckAt (NewReloader ''/etc/auth'') (Now (clockAt 10)) (Now (clockAt 0)) \<and>
   minDuration < reloadIval (NewReloader ''/etc/auth'') \<and>
   reloadIval (NewReloader ''/etc/auth'') \<le> maxDuration \<and>
   wallclock (clockAt 0) \<noteq> 0 \<and>
   \<not> monotonic (clockAt 10) - monotonic (clockAt 0) < reloadIval (NewReloader ''/etc/auth'')"
proof -
  have zero: "IsZero zeroTime"
    by (rule IsZero_zeroTime)
  have early: "Sub (Now (clockAt 9)) (Now (clockAt 0)) < reloadIval (NewReloader ''/etc/auth'')"
    by code_simp
  have pending: "\<not> IsZero (Now (clockAt 0))"
    by code_simp
  have late: "\<not> Sub (Now (clockAt 10)) (Now (clockAt 0)) < reloadIval (NewReloader ''/etc/auth'')"
    by code_simp
  have range: "minDuration < reloadIval (NewReloader ''/etc/auth'')"
    "reloadIval (NewReloader ''/etc/auth'') \<le> maxDuration"
    by (simp_all add: NewReloader_def reloadInterval_def Second_def minDuration_def
        maxDuration_def)
  from reloadCheckAt_cases [of zeroTime "NewReloader ''/etc/auth''" "Now (clockAt 10)"] zero
  have r1: "\<not> reloadCheckAt (NewReloader ''/etc/auth'') (Now (clockAt 10)) zeroTime"
    by blast
  from reloadCheckAt_cases [of "Now (clockAt 0)" "NewReloader ''/etc/auth''" "Now (clockAt 9)"]
    early
  have r2: "\<not> reloadCheckAt (NewReloader ''/etc/auth'') (Now (clockAt 9)) (Now (clockAt 0))"
    by blast
  from reloadCheckAt_cases [of "Now (clockAt 0)" "NewReloader ''/etc/auth''" "Now (clockAt 10)"]
    pending late
  have r3: "reloadCheckAt (NewReloader ''/etc/auth'') (Now (clockAt 10)) (Now (clockAt 0))"
    by blast
  from reloadCheckAt_cases
    [of _ "NewReloader ''/etc/auth''" _ "clockAt 10" "clockAt 0"] range r3
  have r4: "wallclock (clockAt 0) \<noteq> 0 \<and>
    \<not> monotonic (clockAt 10) - monotonic (clockAt 0) < reloadIval (NewReloader ''/etc/auth'')"
    by blast
  from zero early pending late range r1 r2 r3 r4 show ?thesis
    by blast
qed

subsection \<open>The pending change is cleared by the attempt\<close>

text \<open>
  C3. Whenever a reload is due on a tick, \<open>lastUpdate\<close> is the zero time once the tick is
  handled, whether \<open>reloadConfig\<close> fails or not: the attempt is made once, and however many
  ticks follow, no further attempt is made and \<open>lastUpdate\<close> stays zero, as long as no new
  qualifying filesystem event arrives.
\<close>

theorem lastUpdate_reset_before_reload:
  assumes "reloadCheckAt rl (Now (clock w)) lastUpdate"
    and "\<forall>c \<in> set cs. \<not> qualifying c"
  shows "fst (Watch_select rl lastUpdate (TrC w)) = Continue \<and>
         fst (snd (Watch_select rl lastUpdate (TrC w))) = zeroTime \<and>
         attempts (snd (snd (Watch_select rl lastUpdate (TrC w)))) = [clock w] \<and>
         fst (snd (Watch_loop rl lastUpdate (TrC w # cs))) = zeroTime \<and>
         attempts (snd (snd (Watch_loop rl lastUpdate (TrC w # cs)))) = [clock w]"
proof -
  obtain out lastUpdate' effs where rest: "Watch_loop rl zeroTime cs = (out, lastUpdate', effs)"
    by (cases "Watch_loop rl zeroTime cs") auto
  from Watch_loop_quiet [OF IsZero_zeroTime assms(2) rest]
  have q: "lastUpdate' = zeroTime" "attempts effs = []" by simp_all
  from Watch_select_due [OF assms(1)] Watch_loop_after_due [OF assms(1) rest] q
  show ?thesis
    by (simp add: attempts_append attempts_watchAdd reloadConfig_quiet split: sum.splits)
qed

theorem lastUpdate_reset_before_reload_witness:
  "reloadCheckAt (NewReloader ''/etc/auth'') (Now (clock (exampleWorld 10 failingLoader)))
     (Now (clockAt 0)) \<and>
   \<not> qualifying (TrC (exampleWorld 11 Inr)) \<and>
   \<not> qualifying (exampleEvent ''/etc/auth/notes.txt'' Write 12) \<and>
   \<not> qualifying (TrC (exampleWorld 30 Inr)) \<and>
   fst (reloadConfig (exampleWorld 10 failingLoader) (NewReloader ''/etc/auth''))
     = Inl (ErrorString ''parse error'') \<and>
   fst (snd (Watch_select (NewReloader ''/etc/auth'') (Now (clockAt 0))
     (TrC (exampleWorld 10 failingLoader)))) = zeroTime \<and>
   fst (snd (Watch_loop (NewReloader ''/etc/auth'') (Now (clockAt 0))
     (TrC (exampleWorld 10 failingLoader) #
      [TrC (exampleWorld 11 Inr), exampleEvent ''/etc/auth/notes.txt'' Write 12,
       TrC (exampleWorld 30 Inr)]))) = zeroTime \<and>
   attempts (snd (snd (Watch_loop (NewReloader ''/etc/auth'') (Now (clockAt 0))
     (TrC (exampleWorld 10 failingLoader) #
      [TrC (exampleWorld 11 Inr), exampleEvent ''/etc/auth/notes.txt'' Write 12,
       TrC (exampleWorld 30 Inr)])))) = [clockAt 10]"
proof -
  have due: "reloadCheckAt (NewReloader ''/etc/auth'')
      (Now (clock (exampleWorld 10 failingLoader))) (Now (clockAt 0))"
    by code_simp
  have quiet: "\<forall>c \<in> set [TrC (exampleWorld 11 Inr),
      exampleEvent ''/etc/auth/notes.txt'' Write 12, TrC (exampleWorld 30 Inr)]. \<not> qualifying c"
    by (simp add: exampleEvent_def HasSuffix_def)
  have failed: "fst (reloadConfig (exampleWorld 10 failingLoader) (NewReloader ''/etc/auth''))
     = Inl (ErrorString ''parse error'')"
    by code_simp
  from lastUpdate_reset_before_reload [OF due quiet] due quiet failed show ?thesis
    by (simp add: exampleWorld_def)
qed

subsection \<open>Filesystem notifications\<close>

text \<open>
  C4. When \<open>Watch\<close> handles a filesystem notification: if the name of the event does not
  end in \<open>.env\<close>, \<open>lastUpdate\<close> is unchanged; otherwise, if the operation of the event
  includes create, remove, rename or write, \<open>lastUpdate\<close> becomes the current time, and with
  any other operation it is unchanged. A run of such notifications overwrites \<open>lastUpdate\<close>
  each time, leaving the single pending change of the last one.
\<close>

theorem Watch_event_lastUpdate:
  "(\<not> HasSuffix (evt_Name evt) ''.env'' \<longrightarrow>
      Watch_select rl lastUpdate (WrEvents (Some evt) now) = (Continue, lastUpdate, [])) \<and>
   (HasSuffix (evt_Name evt) ''.env'' \<and>
    (Has (evt_Op evt) Create \<or> Has (evt_Op evt) Remove \<or>
     Has (evt_Op evt) Rename \<or> Has (evt_Op evt) Write) \<longrightarrow>
      Watch_select rl lastUpdate (WrEvents (Some evt) now) = (Continue, Now now, [])) \<and>
   (HasSuffix (evt_Name evt) ''.env'' \<and>
    \<not> (Has (evt_Op evt) Create \<or> Has (evt_Op evt) Remove \<or>
       Has (evt_Op evt) Rename \<or> Has (evt_Op evt) Write) \<longrightarrow>
      Watch_select rl lastUpdate (WrEvents (Some evt) now) = (Continue, lastUpdate, [])) \<and>
   (evs \<noteq> [] \<and> (\<forall>c \<in> set evs. qualifying c) \<longrightarrow>
      Watch_loop rl lastUpdate evs = (Waiting, Now (last (readings evs)), []))"
  using Watch_loop_burst by auto

theorem Watch_event_lastUpdate_witness:
  "\<not> HasSuffix ''/etc/auth/notes.txt'' ''.env'' \<and>
   Watch_select (NewReloader ''/etc/auth'') zeroTime
     (exampleEvent ''/etc/auth/notes.txt'' Write 3) = (Continue, zeroTime, []) \<and>
   HasSuffix ''/etc/auth/a.env'' ''.env'' \<and> Has Rename Rename \<and>
   Watch_select (NewReloader ''/etc/auth'') zeroTime
     (exampleEvent ''/etc/auth/a.env'' Rename 3) = (Continue, Now (clockAt 3), []) \<and>
   \<not> Has Chmod Create \<and> \<not> Has Chmod Remove \<and> \<not> Has Chmod Rename \<and> \<not> Has Chmod Write \<and>
   Watch_select (NewReloader ''/etc/auth'') (Now (clockAt 1))
     (exampleEvent ''/etc/auth/a.env'' Chmod 3) = (Continue, Now (clockAt 1), []) \<and>
   qualifying (exampleEvent ''/etc/auth/a.env'' Create 3) \<and>
   qualifying (exampleEvent ''/etc/auth/b.env'' Write 4) \<and>
   Watch_loop (NewReloader ''/etc/auth'') zeroTime
     [exampleEvent ''/etc/auth/a.env'' Create 3, exampleEvent ''/etc/auth/b.env'' Write 4]
     = (Waiting, Now (clockAt 4), [])"
proof -
  have suffix: "\<not> HasSuffix ''/etc/auth/notes.txt'' ''.env''"
    "HasSuffix ''/etc/auth/a.env'' ''.env''" "HasSuffix ''/etc/auth/b.env'' ''.env''"
    by (simp_all add: HasSuffix_def)
  have ops: "Has Rename Rename" "Has Create Create" "Has Write Write"
    "\<not> Has Chmod Create" "\<not> Has Chmod Remove" "\<not> Has Chmod Rename" "\<not> Has Chmod Write"
    by (simp_all add: Has_def Create_def Write_def Remove_def Rename_def Chmod_def)
  have q: "qualifying (exampleEvent ''/etc/auth/a.env'' Create 3)"
    "qualifying (exampleEvent ''/etc/auth/b.env'' Write 4)"
    using suffix ops by (simp_all add: exampleEvent_def)
  from Watch_event_lastUpdate
    [of "\<lparr>evt_Name = ''/etc/auth/notes.txt'', evt_Op = Write\<rparr>"
        "NewReloader ''/etc/auth''" zeroTime "clockAt 3"]
    suffix
  have e1: "Watch_select (NewReloader ''/etc/auth'') zeroTime
     (exampleEvent ''/etc/auth/notes.txt'' Write 3) = (Continue, zeroTime, [])"
    by (simp add: exampleEvent_def)
  from Watch_event_lastUpdate
    [of "\<lparr>evt_Name = ''/etc/auth/a.env'', evt_Op = Rename\<rparr>"
        "NewReloader ''/etc/auth''" zeroTime "clockAt 3"]
    suffix ops
  have e2: "Watch_select (NewReloader ''/etc/auth'') zeroTime
     (exampleEvent ''/etc/auth/a.env'' Rename 3) = (Continue, Now (clockAt 3), [])"
    by (simp add: exampleEvent_def)
  from Watch_event_lastUpdate
    [of "\<lparr>evt_Name = ''/etc/auth/a.env'', evt_Op = Chmod\<rparr>"
        "NewReloader ''/etc/auth''" "Now (clockAt 1)" "clockAt 3"]
    suffix ops
  have e3: "Watch_select (NewReloader ''/etc/auth'') (Now (clockAt 1))
     (exampleEvent ''/etc/auth/a.env'' Chmod 3) = (Continue, Now (clockAt 1), [])"
    by (simp add: exampleEvent_def)
  from Watch_event_lastUpdate
    [of _ "NewReloader ''/etc/auth''" zeroTime _
        "[exampleEvent ''/etc/auth/a.env'' Create 3, exampleEvent ''/etc/auth/b.env'' Write 4]"]
    q
  have e4: "Watch_loop (NewReloader ''/etc/auth'') zeroTime
     [exampleEvent ''/etc/auth/a.env'' Create 3, exampleEvent ''/etc/auth/b.env'' Write 4]
     = (Waiting, Now (clockAt 4), [])"
    by (simp add: exampleEvent_def)
  from suffix ops q e1 e2 e3 e4 show ?thesis by blast
qed

subsection \<open>What a reload attempt reads\<close>

text \<open>
  C5. A reload attempt lists the entries of the watch directory, drops the subdirectories
  and every entry whose name does not end in \<open>.env\<close>, keeps the remaining names in
  filename-sorted order, joins each to the watch directory path with \<open>filepath.Join\<close>, and
  calls the loader once, with exactly that ordered list of paths; the result of the attempt
  is the result of the loader. Where the watch directory path is clean, each path is the
  watch directory path, a separator and the name.
\<close>

theorem reloadConfig_loader_paths:
  assumes "dirents w (watchDir rl) = Inr ents"
  shows "sorted (map Name (filter (\<lambda>ent. \<not> IsDir ent \<and> HasSuffix (Name ent) ''.env'')
                   (sort_key Name ents))) \<and>
         set (filter (\<lambda>ent. \<not> IsDir ent \<and> HasSuffix (Name ent) ''.env'') (sort_key Name ents))
           = {ent \<in> set ents. \<not> IsDir ent \<and> HasSuffix (Name ent) ''.env''} \<and>
         reloadConfig w rl =
           (LoadGlobalFiles w
              (map (\<lambda>name. Join [watchDir rl, name])
                 (map Name (filter (\<lambda>ent. \<not> IsDir ent \<and> HasSuffix (Name ent) ''.env'')
                              (sort_key Name ents)))),
            [ReadDirCall (watchDir rl),
             LoaderCall
               (map (\<lambda>name. Join [watchDir rl, name])
                  (map Name (filter (\<lambda>ent. \<not> IsDir ent \<and> HasSuffix (Name ent) ''.env'')
                               (sort_key Name ents))))]) \<and>
         (Clean (watchDir rl) = watchDir rl \<and> watchDir rl \<noteq> ''/'' \<and> watchDir rl \<noteq> ''.'' \<and>
          (\<forall>ent \<in> set ents. CHR ''/'' \<notin> set (Name ent)) \<longrightarrow>
            map (\<lambda>name. Join [watchDir rl, name])
              (map Name (filter (\<lambda>ent. \<not> IsDir ent \<and> HasSuffix (Name ent) ''.env'')
                           (sort_key Name ents)))
            = map (\<lambda>name. watchDir rl @ ''/'' @ name)
                (map Name (filter (\<lambda>ent. \<not> IsDir ent \<and> HasSuffix (Name ent) ''.env'')
                             (sort_key Name ents))))"
proof -
  have "reloadConfig w rl =
      (LoadGlobalFiles w (envPaths (watchDir rl) (sort_key Name ents)),
       [ReadDirCall (watchDir rl), LoaderCall (envPaths (watchDir rl) (sort_key Name ents))])"
    using assms by (simp add: reloadConfig_def ReadDir_def Let_def split: sum.splits)
  then have call: "reloadConfig w rl =
           (LoadGlobalFiles w
              (map (\<lambda>name. Join [watchDir rl, name])
                 (map Name (filter (\<lambda>ent. \<not> IsDir ent \<and> HasSuffix (Name ent) ''.env'')
                              (sort_key Name ents)))),
            [ReadDirCall (watchDir rl),
             LoaderCall
               (map (\<lambda>name. Join [watchDir rl, name])
                  (map Name (filter (\<lambda>ent. \<not> IsDir ent \<and> HasSuffix (Name ent) ''.env'')
                               (sort_key Name ents))))])"
    by (simp only: envPaths_filter)
  have kept: "set (filter (\<lambda>ent. \<not> IsDir ent \<and> HasSuffix (Name ent) ''.env'') (sort_key Name ents))
           = {ent \<in> set ents. \<not> IsDir ent \<and> HasSuffix (Name ent) ''.env''}"
    by auto
  have literal: "Clean (watchDir rl) = watchDir rl \<and> watchDir rl \<noteq> ''/'' \<and> watchDir rl \<noteq> ''.'' \<and>
          (\<forall>ent \<in> set ents. CHR ''/'' \<notin> set (Name ent)) \<longrightarrow>
            map (\<lambda>name. Join [watchDir rl, name])
              (map Name (filter (\<lambda>ent. \<not> IsDir ent \<and> HasSuffix (Name ent) ''.env'')
                           (sort_key Name ents)))
            = map (\<lambda>name. watchDir rl @ ''/'' @ name)
                (map Name (filter (\<lambda>ent. \<not> IsDir ent \<and> HasSuffix (Name ent) ''.env'')
                             (sort_key Name ents)))"
    by (auto simp: Join_clean_dir)
  from sorted_names call kept literal show ?thesis
    by blast
qed

theorem reloadConfig_loader_paths_witness:
  "dirents (exampleWorld 10 Inr) (watchDir (NewReloader ''/etc/auth''))
     = Inr [\<lparr>Name = ''b.env'', IsDir = False\<rparr>, \<lparr>Name = ''sub.env'', IsDir = True\<rparr>,
            \<lparr>Name = ''notes.txt'', IsDir = False\<rparr>, \<lparr>Name = ''a.env'', IsDir = False\<rparr>] \<and>
   Clean (watchDir (NewReloader ''/etc/auth'')) = watchDir (NewReloader ''/etc/auth'') \<and>
   reloadConfig (exampleWorld 10 Inr) (NewReloader ''/etc/auth'')
     = (Inr [''/etc/auth/a.env'', ''/etc/auth/b.env''],
        [ReadDirCall ''/etc/auth'', LoaderCall [''/etc/auth/a.env'', ''/etc/auth/b.env'']])"
proof -
  have listing: "dirents (exampleWorld 10 Inr) (watchDir (NewReloader ''/etc/auth''))
     = Inr [\<lparr>Name = ''b.env'', IsDir = False\<rparr>, \<lparr>Name = ''sub.env'', IsDir = True\<rparr>,
            \<lparr>Name = ''notes.txt'', IsDir = False\<rparr>, \<lparr>Name = ''a.env'', IsDir = False\<rparr>]"
    by (simp add: exampleWorld_def exampleListing_def NewReloader_def)
  have clean: "Clean (watchDir (NewReloader ''/etc/auth'')) = watchDir (NewReloader ''/etc/auth'')"
    by code_simp
  have paths: "map (\<lambda>name. Join [watchDir (NewReloader ''/etc/auth''), name])
       (map Name (filter (\<lambda>ent. \<not> IsDir ent \<and> HasSuffix (Name ent) ''.env'')
          (sort_key Name [\<lparr>Name = ''b.env'', IsDir = False\<rparr>, \<lparr>Name = ''sub.env'', IsDir = True\<rparr>,
            \<lparr>Name = ''notes.txt'', IsDir = False\<rparr>, \<lparr>Name = ''a.env'', IsDir = False\<rparr>])))
     = [''/etc/auth/a.env'', ''/etc/auth/b.env'']"
    by code_simp
  from reloadConfig_loader_paths [OF listing]
  have "reloadConfig (exampleWorld 10 Inr) (NewReloader ''/etc/auth'')
     = (Inr [''/etc/auth/a.env'', ''/etc/auth/b.env''],
        [ReadDirCall ''/etc/auth'', LoaderCall [''/etc/auth/a.env'', ''/etc/auth/b.env'']])"
    unfolding paths by (simp add: exampleWorld_def NewReloader_def)
  with listing clean show ?thesis by blast
qed

subsection \<open>A failing loader\<close>

text \<open>
  C6. If the loader fails during a reload attempt, \<open>Watch\<close> logs the error, does not call
  the callback for that attempt, and goes on with the loop. Once a new qualifying event has
  set \<open>lastUpdate\<close> and the reload interval has elapsed since, the next tick makes a new
  attempt, and the callback is called with the configuration it loads.
\<close>

theorem loader_failure_then_later_reload:
  assumes due: "reloadCheckAt rl (Now (clock w)) lastUpdate"
    and listing: "dirents w (watchDir rl) = Inr ents"
    and failure: "LoadGlobalFiles w (envPaths (watchDir rl) (sort_key Name ents)) = Inl err"
    and mid: "\<forall>c \<in> set mid. \<not> qualifying c \<and> \<not> ending c"
    and event: "qualifying (WrEvents (Some evt) now)" "wallclock now \<noteq> 0"
    and mid': "\<forall>c \<in> set mid'. \<not> qualifying c \<and> \<not> ending c \<and>
                 (\<forall>v. c = TrC v \<longrightarrow> \<not> reloadCheckAt rl (Now (clock v)) (Now now))"
    and elapsed: "reloadIval rl \<le> monotonic (clock w') - monotonic now"
      "reloadIval rl \<le> maxDuration"
    and loaded: "fst (reloadConfig w' rl) = Inr cfg"
  shows "Watch_select rl lastUpdate (TrC w) =
           (Continue, zeroTime,
            watchAdd rl (addErr w) @
            [ReloadAttempt (clock w), ReadDirCall (watchDir rl),
             LoaderCall (envPaths (watchDir rl) (sort_key Name ents)),
             LogWithError (Some err) ''config reload failed'']) \<and>
         configs (snd (snd (Watch_select rl lastUpdate (TrC w)))) = [] \<and>
         fst (Watch_loop rl lastUpdate
                (TrC w # mid @ WrEvents (Some evt) now # mid' @ [TrC w'])) = Waiting \<and>
         attempts (snd (snd (Watch_loop rl lastUpdate
                (TrC w # mid @ WrEvents (Some evt) now # mid' @ [TrC w'])))) = [clock w, clock w'] \<and>
         configs (snd (snd (Watch_loop rl lastUpdate
                (TrC w # mid @ WrEvents (Some evt) now # mid' @ [TrC w'])))) = [cfg]"
proof -
  have rc: "reloadConfig w rl =
      (Inl err, [ReadDirCall (watchDir rl),
                 LoaderCall (envPaths (watchDir rl) (sort_key Name ents))])"
    using listing failure by (simp add: reloadConfig_def ReadDir_def Let_def)
  with Watch_select_due [OF due]
  have first: "Watch_select rl lastUpdate (TrC w) =
           (Continue, zeroTime,
            watchAdd rl (addErr w) @
            [ReloadAttempt (clock w), ReadDirCall (watchDir rl),
             LoaderCall (envPaths (watchDir rl) (sort_key Name ents)),
             LogWithError (Some err) ''config reload failed''])"
    by simp
  define effs0 :: "'a effect list" where "effs0 = watchAdd rl (addErr w) @
            [ReloadAttempt (clock w), ReadDirCall (watchDir rl),
             LoaderCall (envPaths (watchDir rl) (sort_key Name ents)),
             LogWithError (Some err) ''config reload failed'']"
  have effs0: "attempts effs0 = [clock w]" "configs effs0 = []"
    by (simp_all add: effs0_def attempts_append configs_append attempts_watchAdd watchAdd_quiet)
  from first have first': "Watch_select rl lastUpdate (TrC w) = (Continue, zeroTime, effs0)"
    by (simp add: effs0_def)
  from reloadCheckAt_elapsed [OF event(2) elapsed]
  have due': "reloadCheckAt rl (Now (clock w')) (Now now)" .
  have empty: "Watch_loop rl zeroTime ([] :: 'a chosen list) = (Waiting, zeroTime, [])"
    by simp
  define effs3 :: "'a effect list" where
    "effs3 = (watchAdd rl (addErr w') @ ReloadAttempt (clock w') # snd (reloadConfig w' rl) @
             [case fst (reloadConfig w' rl) of
                Inl err \<Rightarrow> LogWithError (Some err) ''config reload failed''
              | Inr cfg \<Rightarrow> ConfigFn cfg]) @ []"
  from Watch_loop_after_due [OF due' empty]
  have last: "Watch_loop rl (Now now) [TrC w'] = (Waiting, zeroTime, effs3)"
    by (simp add: effs3_def)
  have effs3: "attempts effs3 = [clock w']" "configs effs3 = [cfg]"
    using loaded
    by (simp_all add: effs3_def attempts_append configs_append attempts_watchAdd watchAdd_quiet
        reloadConfig_quiet)
  from Watch_loop_idle_append [OF mid' last] obtain effs2 where
    wait: "Watch_loop rl (Now now) (mid' @ [TrC w']) = (Waiting, zeroTime, effs2 @ effs3)"
    and effs2: "attempts effs2 = []" "configs effs2 = []"
    by blast
  from Watch_loop_Continue [OF Watch_select_qualifying [OF event(1)] wait]
  have ev: "Watch_loop rl zeroTime (WrEvents (Some evt) now # mid' @ [TrC w'])
      = (Waiting, zeroTime, [] @ effs2 @ effs3)" .
  from Watch_loop_quiet_append [OF IsZero_zeroTime mid ev] obtain effs1 where
    quiet: "Watch_loop rl zeroTime (mid @ WrEvents (Some evt) now # mid' @ [TrC w'])
      = (Waiting, zeroTime, effs1 @ [] @ effs2 @ effs3)"
    and effs1: "attempts effs1 = []" "configs effs1 = []"
    by blast
  from Watch_loop_Continue [OF first' quiet]
  have run: "Watch_loop rl lastUpdate (TrC w # mid @ WrEvents (Some evt) now # mid' @ [TrC w'])
      = (Waiting, zeroTime, effs0 @ effs1 @ [] @ effs2 @ effs3)" .
  have "attempts (effs0 @ effs1 @ [] @ effs2 @ effs3) = [clock w, clock w']"
    by (simp add: attempts_append effs0 effs1 effs2 effs3)
  moreover have "configs (effs0 @ effs1 @ [] @ effs2 @ effs3) = [cfg]"
    by (simp add: configs_append effs0 effs1 effs2 effs3)
  ultimately show ?thesis
    using effs0(2) [unfolded effs0_def]
    by (simp add: run first del: Watch_loop.simps Watch_select.simps)
qed

theorem loader_failure_then_later_reload_witness:
  "reloadCheckAt (NewReloader ''/etc/auth'') (Now (clock (exampleWorld 10 failingLoader)))
     (Now (clockAt 0)) \<and>
   qualifying (exampleEvent ''/etc/auth/b.env'' Write 13) \<and>
   wallclock (clockAt 13) \<noteq> 0 \<and>
   reloadIval (NewReloader ''/etc/auth'')
     \<le> monotonic (clock (exampleWorld 23 Inr)) - monotonic (clockAt 13) \<and>
   reloadIval (NewReloader ''/etc/auth'') \<le> maxDuration \<and>
   configs (snd (snd (Watch_select (NewReloader ''/etc/auth'') (Now (clockAt 0))
     (TrC (exampleWorld 10 failingLoader))))) = [] \<and>
   fst (Watch_loop (NewReloader ''/etc/auth'') (Now (clockAt 0))
     (TrC (exampleWorld 10 failingLoader) #
      [TrC (exampleWorld 11 Inr), WrErrors (Some (ErrorString ''overflow''))] @
      WrEvents (Some \<lparr>evt_Name = ''/etc/auth/b.env'', evt_Op = Write\<rparr>) (clockAt 13) #
      [TrC (exampleWorld 14 Inr), TrC (exampleWorld 22 Inr)] @
      [TrC (exampleWorld 23 Inr)])) = Waiting \<and>
   attempts (snd (snd (Watch_loop (NewReloader ''/etc/auth'') (Now (clockAt 0))
     (TrC (exampleWorld 10 failingLoader) #
      [TrC (exampleWorld 11 Inr), WrErrors (Some (ErrorString ''overflow''))] @
      WrEvents (Some \<lparr>evt_Name = ''/etc/auth/b.env'', evt_Op = Write\<rparr>) (clockAt 13) #
      [TrC (exampleWorld 14 Inr), TrC (exampleWorld 22 Inr)] @
      [TrC (exampleWorld 23 Inr)])))) = [clockAt 10, clockAt 23] \<and>
   configs (snd (snd (Watch_loop (NewReloader ''/etc/auth'') (Now (clockAt 0))
     (TrC (exampleWorld 10 failingLoader) #
      [TrC (exampleWorld 11 Inr), WrErrors (Some (ErrorString ''overflow''))] @
      WrEvents (Some \<lparr>evt_Name = ''/etc/auth/b.env'', evt_Op = Write\<rparr>) (clockAt 13) #
      [TrC (exampleWorld 14 Inr), TrC (exampleWorld 22 Inr)] @
      [TrC (exampleWorld 23 Inr)])))) = [[''/etc/auth/a.env'', ''/etc/auth/b.env'']]"
proof -
  have due: "reloadCheckAt (NewReloader ''/etc/auth'')
      (Now (clock (exampleWorld 10 failingLoader))) (Now (clockAt 0))"
    by code_simp
  have listing: "dirents (exampleWorld 10 failingLoader) (watchDir (NewReloader ''/etc/auth''))
     = Inr [\<lparr>Name = ''b.env'', IsDir = False\<rparr>, \<lparr>Name = ''sub.env'', IsDir = True\<rparr>,
            \<lparr>Name = ''notes.txt'', IsDir = False\<rparr>, \<lparr>Name = ''a.env'', IsDir = False\<rparr>]"
    by (simp add: exampleWorld_def exampleListing_def NewReloader_def)
  have failure: "LoadGlobalFiles (exampleWorld 10 failingLoader)
      (envPaths (watchDir (NewReloader ''/etc/auth''))
         (sort_key Name [\<lparr>Name = ''b.env'', IsDir = False\<rparr>, \<lparr>Name = ''sub.env'', IsDir = True\<rparr>,
            \<lparr>Name = ''notes.txt'', IsDir = False\<rparr>, \<lparr>Name = ''a.env'', IsDir = False\<rparr>]))
      = Inl (ErrorString ''parse error'')"
    by (simp add: exampleWorld_def failingLoader_def)
  have mid: "\<forall>c \<in> set [TrC (exampleWorld 11 Inr), WrErrors (Some (ErrorString ''overflow''))].
      \<not> qualifying c \<and> \<not> ending c"
    by simp
  have event: "qualifying (WrEvents (Some \<lparr>evt_Name = ''/etc/auth/b.env'', evt_Op = Write\<rparr>)
      (clockAt 13) :: string list chosen)"
    by (simp add: HasSuffix_def Has_def Write_def)
  have nonzero: "wallclock (clockAt 13) \<noteq> 0"
    by (simp add: clockAt_def Second_def)
  have idle14: "\<not> reloadCheckAt (NewReloader ''/etc/auth'') (Now (clock (exampleWorld 14 Inr)))
      (Now (clockAt 13))"
    by code_simp
  have idle22: "\<not> reloadCheckAt (NewReloader ''/etc/auth'') (Now (clock (exampleWorld 22 Inr)))
      (Now (clockAt 13))"
    by code_simp
  have mid': "\<forall>c \<in> set [TrC (exampleWorld 14 Inr), TrC (exampleWorld 22 Inr)].
      \<not> qualifying c \<and> \<not> ending c \<and>
      (\<forall>v. c = TrC v \<longrightarrow>
         \<not> reloadCheckAt (NewReloader ''/etc/auth'') (Now (clock v)) (Now (clockAt 13)))"
    using idle14 idle22 by simp
  have elapsed: "reloadIval (NewReloader ''/etc/auth'')
      \<le> monotonic (clock (exampleWorld 23 Inr)) - monotonic (clockAt 13)"
    "reloadIval (NewReloader ''/etc/auth'') \<le> maxDuration"
    by (simp_all add: NewReloader_def reloadInterval_def exampleWorld_def clockAt_def
        Second_def maxDuration_def)
  have loaded: "fst (reloadConfig (exampleWorld 23 Inr) (NewReloader ''/etc/auth''))
      = Inr [''/etc/auth/a.env'', ''/etc/auth/b.env'']"
    by code_simp
  from event have event': "qualifying (exampleEvent ''/etc/auth/b.env'' Write 13)"
    by (simp only: exampleEvent_def)
  note run = loader_failure_then_later_reload
    [OF due listing failure mid event nonzero mid' elapsed loaded]
  have clocks: "clock (exampleWorld 10 failingLoader) = clockAt 10"
    "clock (exampleWorld 23 Inr) = clockAt 23"
    by (simp_all add: exampleWorld_def)
  from run [THEN conjunct2] have
    "configs (snd (snd (Watch_select (NewReloader ''/etc/auth'') (Now (clockAt 0))
       (TrC (exampleWorld 10 failingLoader))))) = [] \<and>
     fst (Watch_loop (NewReloader ''/etc/auth'') (Now (clockAt 0))
       (TrC (exampleWorld 10 failingLoader) #
        [TrC (exampleWorld 11 Inr), WrErrors (Some (ErrorString ''overflow''))] @
        WrEvents (Some \<lparr>evt_Name = ''/etc/auth/b.env'', evt_Op = Write\<rparr>) (clockAt 13) #
        [TrC (exampleWorld 14 Inr), TrC (exampleWorld 22 Inr)] @
        [TrC (exampleWorld 23 Inr)])) = Waiting \<and>
     attempts (snd (snd (Watch_loop (NewReloader ''/etc/auth'') (Now (clockAt 0))
       (TrC (exampleWorld 10 failingLoader) #
        [TrC (exampleWorld 11 Inr), WrErrors (Some (ErrorString ''overflow''))] @
        WrEvents (Some \<lparr>evt_Name = ''/etc/auth/b.env'', evt_Op = Write\<rparr>) (clockAt 13) #
        [TrC (exampleWorld 14 Inr), TrC (exampleWorld 22 Inr)] @
        [TrC (exampleWorld 23 Inr)])))) = [clockAt 10, clockAt 23] \<and>
     configs (snd (snd (Watch_loop (NewReloader ''/etc/auth'') (Now (clockAt 0))
       (TrC (exampleWorld 10 failingLoader) #
        [TrC (exampleWorld 11 Inr), WrErrors (Some (ErrorString ''overflow''))] @
        WrEvents (Some \<lparr>evt_Name = ''/etc/auth/b.env'', evt_Op = Write\<rparr>) (clockAt 13) #
        [TrC (exampleWorld 14 Inr), TrC (exampleWorld 22 Inr)] @
        [TrC (exampleWorld 23 Inr)])))) = [[''/etc/auth/a.env'', ''/etc/auth/b.env'']]"
    unfolding clocks .
  with due event' nonzero elapsed show ?thesis
    by (intro conjI) (elim conjE, assumption)+
qed

subsection \<open>How the loop ends\<close>

text \<open>
  C7. When the event channel of the watcher is closed, \<open>Watch\<close> returns \<open>nil\<close>; when the
  context is cancelled it returns the error of the context, which is not \<open>nil\<close>, so the
  caller can tell the two apart; an error delivered on the error channel does not end the
  loop, which goes on as if the error had not been delivered.
\<close>

theorem Watch_returns:
  assumes "newWatcher st = None" and "0 < tickerIval rl" and "\<forall>c \<in> set pre. \<not> ending c"
  shows "fst (Watch rl st (pre @ WrEvents None now # cs)) = Returned None \<and>
         fst (Watch rl st (pre @ CtxDone err # cs)) = Returned (Some err) \<and>
         Returned (Some err) \<noteq> Returned None \<and>
         fst (Watch rl st (pre @ [WrErrors (Some err)])) = Waiting \<and>
         fst (Watch rl st (pre @ WrErrors (Some err) # cs)) = fst (Watch rl st (pre @ cs))"
proof -
  from Watch_loop_append [OF assms(3), of rl zeroTime] obtain lastUpdate1 effs1 where
    app: "\<And>rest. Watch_loop rl zeroTime (pre @ rest)
              = (case Watch_loop rl lastUpdate1 rest of
                   (out, lastUpdate2, effs2) \<Rightarrow> (out, lastUpdate2, effs1 @ effs2))"
    by blast
  have "fst (Watch_loop rl zeroTime (pre @ WrEvents None now # cs)) = Returned None"
    by (simp add: app)
  moreover have "fst (Watch_loop rl zeroTime (pre @ CtxDone err # cs)) = Returned (Some err)"
    by (simp add: app)
  moreover have "fst (Watch_loop rl zeroTime (pre @ [WrErrors (Some err)])) = Waiting"
    by (simp add: app)
  moreover have "fst (Watch_loop rl zeroTime (pre @ WrErrors (Some err) # cs))
      = fst (Watch_loop rl zeroTime (pre @ cs))"
    by (simp add: app split: prod.splits)
  ultimately show ?thesis
    by (simp add: Watch_started [OF assms(1,2)])
qed

theorem Watch_returns_witness:
  "newWatcher exampleStart = None \<and> 0 < tickerIval (NewReloader ''/etc/auth'') \<and>
   \<not> ending (exampleEvent ''/etc/auth/a.env'' Create 0 :: string list chosen) \<and>
   \<not> ending (TrC (exampleWorld 1 Inr)) \<and>
   fst (Watch (NewReloader ''/etc/auth'') exampleStart
     ([exampleEvent ''/etc/auth/a.env'' Create 0, TrC (exampleWorld 1 Inr)] @
      WrEvents None (clockAt 2) # [TrC (exampleWorld 3 Inr)])) = Returned None \<and>
   fst (Watch (NewReloader ''/etc/auth'') exampleStart
     ([exampleEvent ''/etc/auth/a.env'' Create 0, TrC (exampleWorld 1 Inr)] @
      CtxDone Canceled # [TrC (exampleWorld 3 Inr)])) = Returned (Some Canceled) \<and>
   fst (Watch (NewReloader ''/etc/auth'') exampleStart
     ([exampleEvent ''/etc/auth/a.env'' Create 0, TrC (exampleWorld 1 Inr)] @
      [WrErrors (Some Canceled)])) = Waiting"
proof -
  have start: "newWatcher exampleStart = None" "0 < tickerIval (NewReloader ''/etc/auth'')"
    by (simp_all add: exampleStart_def NewReloader_def tickerInterval_def reloadInterval_def
        Second_def)
  have pre: "\<forall>c \<in> set [exampleEvent ''/etc/auth/a.env'' Create 0, TrC (exampleWorld 1 Inr)].
               \<not> ending c"
    by (simp add: exampleEvent_def)
  from Watch_returns [OF start pre, of "clockAt 2" "[TrC (exampleWorld 3 Inr)]" Canceled]
    start pre
  show ?thesis by (simp add: exampleEvent_def)
qed

subsection \<open>A watch directory that cannot be listed\<close>

text \<open>
  C10. If listing the watch directory fails when a reload attempt fires, \<open>reloadConfig\<close>
  returns the error without calling the loader, \<open>Watch\<close> does not call the callback for that
  attempt, and \<open>lastUpdate\<close> is the zero time afterwards, so that no reload is attempted again
  as long as no new qualifying filesystem event arrives.
\<close>

theorem readdir_failure_no_retry:
  assumes listing: "dirents w (watchDir rl) = Inl err"
    and due: "reloadCheckAt rl (Now (clock w)) lastUpdate"
    and quiet: "\<forall>c \<in> set cs. \<not> qualifying c"
  shows "reloadConfig w rl = (Inl err, [ReadDirCall (watchDir rl)]) \<and>
         Watch_select rl lastUpdate (TrC w) =
           (Continue, zeroTime,
            watchAdd rl (addErr w) @
            [ReloadAttempt (clock w), ReadDirCall (watchDir rl),
             LogWithError (Some err) ''config reload failed'']) \<and>
         fst (snd (Watch_loop rl lastUpdate (TrC w # cs))) = zeroTime \<and>
         attempts (snd (snd (Watch_loop rl lastUpdate (TrC w # cs)))) = [clock w] \<and>
         loaderCalls (snd (snd (Watch_loop rl lastUpdate (TrC w # cs)))) = [] \<and>
         configs (snd (snd (Watch_loop rl lastUpdate (TrC w # cs)))) = []"
proof -
  have rc: "reloadConfig w rl = (Inl err, [ReadDirCall (watchDir rl)])"
    using listing by (simp add: reloadConfig_def ReadDir_def)
  with Watch_select_due [OF due]
  have first: "Watch_select rl lastUpdate (TrC w) =
           (Continue, zeroTime,
            watchAdd rl (addErr w) @
            [ReloadAttempt (clock w), ReadDirCall (watchDir rl),
             LogWithError (Some err) ''config reload failed''])"
    by simp
  obtain out lastUpdate' effs where rest: "Watch_loop rl zeroTime cs = (out, lastUpdate', effs)"
    by (cases "Watch_loop rl zeroTime cs") auto
  from Watch_loop_quiet [OF IsZero_zeroTime quiet rest]
  have q: "lastUpdate' = zeroTime" "attempts effs = []" "loaderCalls effs = []"
    "configs effs = []"
    by simp_all
  from Watch_loop_Continue [OF first rest]
  have "Watch_loop rl lastUpdate (TrC w # cs) =
      (out, lastUpdate',
       (watchAdd rl (addErr w) @
            [ReloadAttempt (clock w), ReadDirCall (watchDir rl),
             LogWithError (Some err) ''config reload failed'']) @ effs)" .
  with rc first q show ?thesis
    by (simp add: attempts_append loaderCalls_append configs_append attempts_watchAdd
        watchAdd_quiet)
qed

theorem readdir_failure_no_retry_witness:
  "dirents (exampleWorld 10 Inr) (watchDir (NewReloader ''/etc/missing''))
     = Inl (ErrorString ''no such file or directory'') \<and>
   reloadCheckAt (NewReloader ''/etc/missing'') (Now (clock (exampleWorld 10 Inr)))
     (Now (clockAt 0)) \<and>
   \<not> qualifying (TrC (exampleWorld 11 Inr)) \<and>
   \<not> qualifying (TrC (exampleWorld 30 Inr)) \<and>
   reloadConfig (exampleWorld 10 Inr) (NewReloader ''/etc/missing'')
     = (Inl (ErrorString ''no such file or directory''), [ReadDirCall ''/etc/missing'']) \<and>
   attempts (snd (snd (Watch_loop (NewReloader ''/etc/missing'') (Now (clockAt 0))
     (TrC (exampleWorld 10 Inr) # [TrC (exampleWorld 11 Inr), TrC (exampleWorld 30 Inr)]))))
     = [clockAt 10] \<and>
   loaderCalls (snd (snd (Watch_loop (NewReloader ''/etc/missing'') (Now (clockAt 0))
     (TrC (exampleWorld 10 Inr) # [TrC (exampleWorld 11 Inr), TrC (exampleWorld 30 Inr)]))))
     = [] \<and>
   configs (snd (snd (Watch_loop (NewReloader ''/etc/missing'') (Now (clockAt 0))
     (TrC (exampleWorld 10 Inr) # [TrC (exampleWorld 11 Inr), TrC (exampleWorld 30 Inr)]))))
     = []"
proof -
  have listing: "dirents (exampleWorld 10 Inr) (watchDir (NewReloader ''/etc/missing''))
     = Inl (ErrorString ''no such file or directory'')"
    by (simp add: exampleWorld_def exampleListing_def NewReloader_def)
  have due: "reloadCheckAt (NewReloader ''/etc/missing'') (Now (clock (exampleWorld 10 Inr)))
     (Now (clockAt 0))"
    by code_simp
  have quiet: "\<forall>c \<in> set [TrC (exampleWorld 11 Inr), TrC (exampleWorld 30 Inr)].
      \<not> qualifying c"
    by simp
  from readdir_failure_no_retry [OF listing due quiet] listing due quiet show ?thesis
    by (simp add: exampleWorld_def NewReloader_def del: Watch_loop.simps Watch_select.simps)
qed

section \<open>Properties of serve\<close>

subsection \<open>The two goroutines\<close>

lemma serve_inv_init: "serve_inv (serve_init cancelled)"
  by (simp add: serve_inv_def serve_init_def)

lemma serve_inv_exited:
  "serve_inv s \<Longrightarrow> serve_inv (s\<lparr>exited := True, logged := es\<rparr>)"
  by (simp add: serve_inv_def)

lemma serve_inv_main_step:
  assumes "serve_inv s" and "main_step r s = Some s'"
  shows "serve_inv s'"
proof (cases "main s")
  case M_LoadGlobal
  show ?thesis
  proof (cases r)
    case None
    with assms(2) M_LoadGlobal have "s' = s\<lparr>main := M_Dial\<rparr>" by simp
    with assms(1) M_LoadGlobal show ?thesis
      by (simp add: serve_inv_def)
  next
    case (Some err)
    with assms(2) M_LoadGlobal have "\<exists>es. s' = s\<lparr>exited := True, logged := es\<rparr>" by auto
    with assms(1) serve_inv_exited show ?thesis by blast
  qed
next
  case M_Dial
  show ?thesis
  proof (cases r)
    case None
    with assms(2) M_Dial have "s' = s\<lparr>main := M_Go\<rparr>" by simp
    with assms(1) M_Dial show ?thesis
      by (simp add: serve_inv_def)
  next
    case (Some err)
    with assms(2) M_Dial have "\<exists>es. s' = s\<lparr>exited := True, logged := es\<rparr>" by auto
    with assms(1) serve_inv_exited show ?thesis by blast
  qed
next
  case M_Go
  with assms(2) have "s' = s\<lparr>wg := wg s + 1, co := C_Done, main := M_ListenAndServe\<rparr>"
    by simp
  with assms(1) M_Go show ?thesis
    by (simp add: serve_inv_def)
next
  case M_ListenAndServe
  with assms(2) obtain err where r: "r = Some err"
    by (cases r) simp_all
  show ?thesis
  proof (cases "err = ErrServerClosed")
    case True
    with assms(2) M_ListenAndServe r have "s' = s\<lparr>main := M_Wait\<rparr>"
      by (simp split: if_splits)
    with assms(1) M_ListenAndServe show ?thesis
      by (simp add: serve_inv_def)
  next
    case False
    with assms(2) M_ListenAndServe r have "\<exists>es. s' = s\<lparr>exited := True, logged := es\<rparr>"
      by auto
    with assms(1) serve_inv_exited show ?thesis by blast
  qed
next
  case M_Wait
  with assms(2) have "wg s = 0" and s': "s' = s\<lparr>main := M_BaseCancel\<rparr>"
    by (simp_all split: if_splits)
  with assms(1) M_Wait have "co s = C_Finished"
    by (simp add: serve_inv_def split: if_splits)
  with assms(1) s' show ?thesis
    by (simp add: serve_inv_def)
next
  case M_BaseCancel
  with assms(2) have "s' = s\<lparr>baseDone := True, main := M_DbClose\<rparr>" by simp
  with assms(1) M_BaseCancel show ?thesis
    by (simp add: serve_inv_def)
next
  case M_DbClose
  with assms(2) have "s' = s\<lparr>dbClosed := True, main := M_Returned\<rparr>" by simp
  with assms(1) M_DbClose show ?thesis
    by (simp add: serve_inv_def)
next
  case M_Returned
  with assms(2) show ?thesis by simp
qed

lemma serve_inv_co_step:
  assumes "serve_inv s" and "co_step r s = Some s'"
  shows "serve_inv s'"
proof (cases "co s")
  case C_NotStarted
  with assms show ?thesis by simp
next
  case C_Done
  with assms have "ctxDone s" and "s' = s\<lparr>co := C_Shutdown\<rparr>"
    by (auto split: if_splits)
  with assms(1) C_Done show ?thesis
    by (simp add: serve_inv_def)
next
  case C_Shutdown
  with assms have
    "s' = s\<lparr>shutdownTimeout := Some Minute, inShutdown := True, co := C_InShutdown\<rparr>"
    by simp
  with assms(1) C_Shutdown show ?thesis
    by (simp add: serve_inv_def)
next
  case C_InShutdown
  with assms obtain es where
    "s' = s\<lparr>shutdownResult := Some r, logged := es, co := C_ShutdownCancel\<rparr>"
    by auto
  with assms(1) C_InShutdown show ?thesis
    by (simp add: serve_inv_def)
next
  case C_ShutdownCancel
  with assms have "s' = s\<lparr>co := C_BaseCancel\<rparr>" by simp
  with assms(1) C_ShutdownCancel show ?thesis
    by (simp add: serve_inv_def)
next
  case C_BaseCancel
  with assms have "s' = s\<lparr>baseDone := True, co := C_WgDone\<rparr>" by simp
  with assms(1) C_BaseCancel show ?thesis
    by (simp add: serve_inv_def)
next
  case C_WgDone
  with assms have "s' = s\<lparr>wg := wg s - 1, co := C_Finished\<rparr>" by simp
  with assms(1) C_WgDone show ?thesis
    by (simp add: serve_inv_def)
next
  case C_Finished
  with assms show ?thesis by simp
qed

lemma serve_inv_step:
  assumes "serve_inv s" and "serve_step l s = Some s'"
  shows "serve_inv s'"
proof (cases l)
  case CtxCancel
  with assms have "s' = s\<lparr>ctxDone := True\<rparr>"
    by (auto split: if_splits)
  with assms(1) show ?thesis
    by (simp add: serve_inv_def)
next
  case (MainStep r)
  with assms(2) have "main_step r s = Some s'"
    by (simp del: main_step.simps split: if_splits)
  with assms(1) show ?thesis by (rule serve_inv_main_step)
next
  case (CoStep r)
  with assms(2) have "co_step r s = Some s'"
    by (simp del: co_step.simps split: if_splits)
  with assms(1) show ?thesis by (rule serve_inv_co_step)
qed

lemma reachable_inv: "reachable s \<Longrightarrow> serve_inv s"
proof (induction rule: reachable.induct)
  case (init cancelled)
  show ?case by (rule serve_inv_init)
next
  case (step s l s')
  then show ?case using serve_inv_step by blast
qed

lemma serve_steps_reachable:
  "reachable s \<Longrightarrow> serve_steps ls s = Some s' \<Longrightarrow> reachable s'"
proof (induction ls arbitrary: s)
  case Nil
  then show ?case by simp
next
  case (Cons l ls)
  from Cons.prems(2) obtain s1 where s1: "serve_step l s = Some s1" "serve_steps ls s1 = Some s'"
    by (auto simp del: serve_step.simps split: option.splits)
  from reachable.step [OF Cons.prems(1) s1(1)] have "reachable s1" .
  from Cons.IH [OF this s1(2)] show ?case .
qed

lemma coordinator_completes:
  assumes "co s = C_InShutdown" and "\<not> exited s"
  shows "serve_steps [CoStep r, CoStep None, CoStep None, CoStep None] s =
           Some (s\<lparr>shutdownResult := Some r,
                   logged := logged s @
                     (case r of
                        Some err \<Rightarrow>
                          if \<not> errors_Is err Canceled then [LogFailed ''shutdown failed'' err]
                          else []
                      | None \<Rightarrow> []),
                   baseDone := True, wg := wg s - 1, co := C_Finished\<rparr>)"
  using assms by simp

lemma exampleServeRun_waiting:
  "serve_steps (take 7 exampleServeRun) (serve_init False) = Some exampleServeWaiting"
  by code_simp

subsection \<open>The join of the two goroutines\<close>

lemma serve_join:
  assumes "reachable s"
  shows "(main s = M_Returned \<longrightarrow>
            co s = C_Finished \<and> wg s = 0 \<and> ctxDone s \<and> inShutdown s \<and>
            shutdownTimeout s = Some Minute \<and> shutdownResult s \<noteq> None \<and> baseDone s \<and>
            serve_step (CoStep r) s = None \<and> serve_step (MainStep r) s = None) \<and>
         (main s = M_Wait \<and> co s \<noteq> C_Finished \<longrightarrow> serve_step (MainStep r) s = None)"
proof -
  from reachable_inv [OF assms] have inv: "serve_inv s" .
  have "main s = M_Returned \<longrightarrow>
            co s = C_Finished \<and> wg s = 0 \<and> ctxDone s \<and> inShutdown s \<and>
            shutdownTimeout s = Some Minute \<and> shutdownResult s \<noteq> None \<and> baseDone s \<and>
            serve_step (CoStep r) s = None \<and> serve_step (MainStep r) s = None"
    using inv by (simp add: serve_inv_def)
  moreover have "main s = M_Wait \<and> co s \<noteq> C_Finished \<longrightarrow> serve_step (MainStep r) s = None"
    using inv by (simp add: serve_inv_def)
  ultimately show ?thesis by blast
qed

subsection \<open>Requests in flight during the shutdown\<close>

lemma main_step_shutdown:
  assumes "main_step r s = Some s'"
  shows "inShutdown s' = inShutdown s \<and> shutdownResult s' = shutdownResult s"
proof (cases "main s")
  case M_LoadGlobal
  with assms show ?thesis by (cases r) auto
next
  case M_Dial
  with assms show ?thesis by (cases r) auto
next
  case M_Go
  with assms show ?thesis by auto
next
  case M_ListenAndServe
  with assms show ?thesis by (cases r) (auto split: if_splits)
next
  case M_Wait
  with assms show ?thesis by (auto split: if_splits)
next
  case M_BaseCancel
  with assms show ?thesis by auto
next
  case M_DbClose
  with assms show ?thesis by auto
next
  case M_Returned
  with assms show ?thesis by simp
qed

lemma co_step_shutdown:
  assumes "co_step r s = Some s'"
  shows "(inShutdown s \<longrightarrow> inShutdown s') \<and>
         (shutdownResult s' = shutdownResult s \<or>
          co s = C_InShutdown \<and> shutdownResult s' = Some r)"
proof (cases "co s")
  case C_NotStarted
  with assms show ?thesis by simp
next
  case C_Done
  with assms show ?thesis by (auto split: if_splits)
next
  case C_Shutdown
  with assms show ?thesis by auto
next
  case C_InShutdown
  with assms show ?thesis by auto
next
  case C_ShutdownCancel
  with assms show ?thesis by auto
next
  case C_BaseCancel
  with assms show ?thesis by auto
next
  case C_WgDone
  with assms show ?thesis by auto
next
  case C_Finished
  with assms show ?thesis by simp
qed


lemma serve_step_shutdown:
  assumes "serve_step l s = Some s'"
  shows "(inShutdown s \<longrightarrow> inShutdown s') \<and>
         (shutdownResult s' = shutdownResult s \<or>
          (\<exists>r. l = CoStep r \<and> co s = C_InShutdown \<and> shutdownResult s' = Some r))"
proof (cases l)
  case CtxCancel
  with assms have "s' = s\<lparr>ctxDone := True\<rparr>"
    by (auto split: if_splits)
  then show ?thesis by simp
next
  case (MainStep r)
  with assms have "main_step r s = Some s'"
    by (simp del: main_step.simps split: if_splits)
  from main_step_shutdown [OF this] show ?thesis by simp
next
  case (CoStep r)
  with assms have "co_step r s = Some s'"
    by (simp del: co_step.simps split: if_splits)
  from co_step_shutdown [OF this] CoStep show ?thesis by blast
qed

lemma net_step_Proc:
  assumes "net_step (Proc l) t = Some t'"
  shows "serve_step l (proc t) = Some (proc t') \<and> inflight t' = inflight t \<and>
         (\<forall>r. l = CoStep r \<and> co (proc t) = C_InShutdown \<longrightarrow>
              r = Some DeadlineExceeded \<or> inflight t = 0)"
proof (cases l)
  case CtxCancel
  with assms show ?thesis
    by (auto simp del: serve_step.simps split: option.splits)
next
  case (MainStep r)
  with assms show ?thesis
    by (auto simp del: serve_step.simps split: option.splits)
next
  case (CoStep r)
  with assms show ?thesis
    by (auto simp del: serve_step.simps split: option.splits if_splits)
qed

lemma net_step_others:
  assumes "net_step l t = Some t'" and "\<forall>k. l \<noteq> Proc k"
  shows "proc t' = proc t \<and> (l = Request \<longrightarrow> \<not> inShutdown (proc t)) \<and>
         (l \<noteq> Request \<longrightarrow> inflight t' \<le> inflight t)"
  using assms by (cases l) (auto split: if_splits)

lemma net_reachable_proc: "net_reachable t \<Longrightarrow> reachable (proc t)"
proof (induction rule: net_reachable.induct)
  case (init cancelled)
  show ?case by (simp add: net_init_def reachable.init)
next
  case (step t l t')
  show ?case
  proof (cases "\<exists>k. l = Proc k")
    case True
    then obtain k where "l = Proc k" ..
    with net_step_Proc step.hyps(2) have "serve_step k (proc t) = Some (proc t')"
      by blast
    with step.IH show ?thesis by (rule reachable.step)
  next
    case False
    with net_step_others [OF step.hyps(2)] step.IH show ?thesis by simp
  qed
qed

lemma net_inv_Proc:
  assumes inv: "net_inv t" and base: "serve_inv (proc t)"
    and st: "net_step (Proc k) t = Some t'"
  shows "net_inv t'"
proof -
  note p = net_step_Proc [OF st]
  from p [THEN conjunct1] have step: "serve_step k (proc t) = Some (proc t')" .
  from p [THEN conjunct2, THEN conjunct1] have n: "inflight t' = inflight t" .
  from p [THEN conjunct2, THEN conjunct2]
  have guard: "\<forall>r. k = CoStep r \<and> co (proc t) = C_InShutdown \<longrightarrow>
            r = Some DeadlineExceeded \<or> inflight t = 0" .
  note q = serve_step_shutdown [OF step]
  from q [THEN conjunct1] have keep: "inShutdown (proc t) \<longrightarrow> inShutdown (proc t')" .
  from q [THEN conjunct2]
  have res: "shutdownResult (proc t') = shutdownResult (proc t) \<or>
        (\<exists>r. k = CoStep r \<and> co (proc t) = C_InShutdown \<and> shutdownResult (proc t') = Some r)" .
  from base have shut: "co (proc t) = C_InShutdown \<longrightarrow> inShutdown (proc t)"
    by (simp add: serve_inv_def)
  from inv have i1: "shutdownResult (proc t) \<noteq> None \<longrightarrow> inShutdown (proc t)"
    and i2: "shutdownResult (proc t) \<noteq> None \<and>
       shutdownResult (proc t) \<noteq> Some (Some DeadlineExceeded) \<longrightarrow> inflight t = 0"
    by (simp_all add: net_inv_def)
  have a: "shutdownResult (proc t') \<noteq> None \<longrightarrow> inShutdown (proc t')"
  proof
    assume r: "shutdownResult (proc t') \<noteq> None"
    from res have "inShutdown (proc t)"
    proof
      assume "shutdownResult (proc t') = shutdownResult (proc t)"
      with r i1 show ?thesis by simp
    next
      assume "\<exists>r. k = CoStep r \<and> co (proc t) = C_InShutdown \<and>
        shutdownResult (proc t') = Some r"
      with shut show ?thesis by blast
    qed
    with keep show "inShutdown (proc t')" by blast
  qed
  have b: "shutdownResult (proc t') \<noteq> None \<and>
       shutdownResult (proc t') \<noteq> Some (Some DeadlineExceeded) \<longrightarrow> inflight t' = 0"
  proof
    assume r: "shutdownResult (proc t') \<noteq> None \<and>
       shutdownResult (proc t') \<noteq> Some (Some DeadlineExceeded)"
    from res show "inflight t' = 0"
    proof
      assume "shutdownResult (proc t') = shutdownResult (proc t)"
      with r i2 n show ?thesis by simp
    next
      assume "\<exists>r. k = CoStep r \<and> co (proc t) = C_InShutdown \<and>
        shutdownResult (proc t') = Some r"
      then obtain x where x: "k = CoStep x" "co (proc t) = C_InShutdown"
        "shutdownResult (proc t') = Some x"
        by blast
      with r have "x \<noteq> Some DeadlineExceeded" by simp
      moreover from guard x(1,2) have "x = Some DeadlineExceeded \<or> inflight t = 0"
        by simp
      ultimately have "inflight t = 0" by simp
      with n show ?thesis by simp
    qed
  qed
  from a b show ?thesis
    by (simp add: net_inv_def)
qed

lemma net_inv_others:
  assumes inv: "net_inv t" and st: "net_step l t = Some t'" and l: "\<forall>k. l \<noteq> Proc k"
  shows "net_inv t'"
proof -
  note p = net_step_others [OF st l]
  from p [THEN conjunct1] have same: "proc t' = proc t" .
  from p [THEN conjunct2, THEN conjunct1]
  have req: "l = Request \<longrightarrow> \<not> inShutdown (proc t)" .
  from p [THEN conjunct2, THEN conjunct2]
  have le: "l \<noteq> Request \<longrightarrow> inflight t' \<le> inflight t" .
  from inv have i1: "shutdownResult (proc t) \<noteq> None \<longrightarrow> inShutdown (proc t)"
    and i2: "shutdownResult (proc t) \<noteq> None \<and>
       shutdownResult (proc t) \<noteq> Some (Some DeadlineExceeded) \<longrightarrow> inflight t = 0"
    by (simp_all add: net_inv_def)
  have "shutdownResult (proc t) \<noteq> None \<and>
       shutdownResult (proc t) \<noteq> Some (Some DeadlineExceeded) \<longrightarrow> inflight t' = 0"
  proof
    assume r: "shutdownResult (proc t) \<noteq> None \<and>
       shutdownResult (proc t) \<noteq> Some (Some DeadlineExceeded)"
    with i1 have "inShutdown (proc t)" by blast
    with req have "l \<noteq> Request" by blast
    with le have "inflight t' \<le> inflight t" by blast
    with r i2 show "inflight t' = 0" by simp
  qed
  with i1 same show ?thesis
    by (simp add: net_inv_def)
qed

lemma net_reachable_inv: "net_reachable t \<Longrightarrow> net_inv t"
proof (induction rule: net_reachable.induct)
  case (init cancelled)
  show ?case by (simp add: net_inv_def net_init_def serve_init_def)
next
  case (step t l t')
  show ?case
  proof (cases "\<exists>k. l = Proc k")
    case True
    then obtain k where k: "l = Proc k" ..
    from reachable_inv [OF net_reachable_proc [OF step.hyps(1)]]
    have "serve_inv (proc t)" .
    from net_inv_Proc [OF step.IH this step.hyps(2) [unfolded k]] show ?thesis .
  next
    case False
    then have "\<forall>k. l \<noteq> Proc k" by blast
    from net_inv_others [OF step.IH step.hyps(2) this] show ?thesis .
  qed
qed

lemma net_steps_reachable:
  "net_reachable t \<Longrightarrow> net_steps ls t = Some t' \<Longrightarrow> net_reachable t'"
proof (induction ls arbitrary: t)
  case Nil
  then show ?case by simp
next
  case (Cons l ls)
  from Cons.prems(2) obtain t1 where t1: "net_step l t = Some t1" "net_steps ls t1 = Some t'"
    by (auto split: option.splits)
  from net_reachable.step [OF Cons.prems(1) t1(1)] have "net_reachable t1" .
  from Cons.IH [OF this t1(2)] show ?case .
qed

lemma net_step_Proc_None:
  "serve_step l (proc t) = None \<Longrightarrow> net_step (Proc l) t = None"
  by (cases l) (simp_all del: serve_step.simps)

lemma exampleTimeoutRun_end: "net_steps exampleTimeoutRun (net_init False) = Some exampleTimeoutEnd"
  by code_simp

lemma exampleCleanRun_end: "net_steps exampleCleanRun (net_init False) = Some exampleCleanEnd"
  by code_simp

lemma exampleTimeoutRun_waiting:
  "net_steps (take 10 exampleTimeoutRun) (net_init False) = Some exampleNetWaiting"
  by code_simp

subsection \<open>The bounded shutdown\<close>

text \<open>
  C8. During graceful shutdown the wait for connections in flight is bounded by a fixed
  timeout of 60 seconds: that is the timeout of the context given to \<open>httpSrv.Shutdown\<close>.
  Whatever \<open>Shutdown\<close> returns, the coordinator runs to its end and the process does not
  exit on that account; an error that is not \<open>context.Canceled\<close> is logged, and nothing else is
  done with it.
\<close>

theorem shutdown_bounded_never_fatal:
  "(reachable s \<and>
    co s \<in> {C_InShutdown, C_ShutdownCancel, C_BaseCancel, C_WgDone, C_Finished} \<longrightarrow>
      shutdownTimeout s = Some (60 * Second)) \<and>
   (co s = C_InShutdown \<and> \<not> exited s \<longrightarrow>
      (\<exists>s'. serve_steps [CoStep r, CoStep None, CoStep None, CoStep None] s = Some s' \<and>
            co s' = C_Finished \<and> \<not> exited s' \<and> baseDone s' \<and> wg s' = wg s - 1 \<and>
            shutdownResult s' = Some r \<and>
            logged s' = logged s @
              (case r of
                 None \<Rightarrow> []
               | Some err \<Rightarrow>
                   if errors_Is err Canceled then []
                   else [LogFailed ''shutdown failed'' err])))"
proof -
  have "reachable s \<and>
    co s \<in> {C_InShutdown, C_ShutdownCancel, C_BaseCancel, C_WgDone, C_Finished} \<longrightarrow>
      shutdownTimeout s = Some (60 * Second)"
    using reachable_inv [of s] by (auto simp: serve_inv_def Minute_def)
  moreover have "co s = C_InShutdown \<and> \<not> exited s \<longrightarrow>
      (\<exists>s'. serve_steps [CoStep r, CoStep None, CoStep None, CoStep None] s = Some s' \<and>
            co s' = C_Finished \<and> \<not> exited s' \<and> baseDone s' \<and> wg s' = wg s - 1 \<and>
            shutdownResult s' = Some r \<and>
            logged s' = logged s @
              (case r of
                 None \<Rightarrow> []
               | Some err \<Rightarrow>
                   if errors_Is err Canceled then []
                   else [LogFailed ''shutdown failed'' err]))"
    using coordinator_completes [of s r]
    by (auto simp del: serve_steps.simps serve_step.simps split: option.splits)
  ultimately show ?thesis by blast
qed

theorem shutdown_bounded_never_fatal_witness:
  "reachable exampleServeWaiting \<and> co exampleServeWaiting = C_InShutdown \<and>
   \<not> exited exampleServeWaiting \<and>
   shutdownTimeout exampleServeWaiting = Some (60 * Second) \<and>
   (\<exists>s'. serve_steps [CoStep (Some (Wrapped ''close'' (ErrorString ''broken pipe''))),
                       CoStep None, CoStep None, CoStep None] exampleServeWaiting = Some s' \<and>
         co s' = C_Finished \<and> \<not> exited s' \<and> baseDone s' \<and>
         logged s' = [LogFailed ''shutdown failed''
                        (Wrapped ''close'' (ErrorString ''broken pipe''))])"
proof -
  have r: "reachable exampleServeWaiting"
    using serve_steps_reachable [OF reachable.init exampleServeRun_waiting] .
  have c: "co exampleServeWaiting = C_InShutdown" "\<not> exited exampleServeWaiting"
    "logged exampleServeWaiting = []"
    by (simp_all add: exampleServeWaiting_def)
  note main = shutdown_bounded_never_fatal
    [of exampleServeWaiting "Some (Wrapped ''close'' (ErrorString ''broken pipe''))"]
  from main r c have t: "shutdownTimeout exampleServeWaiting = Some (60 * Second)"
    by blast
  from main c(1,2) obtain s' where
    "serve_steps [CoStep (Some (Wrapped ''close'' (ErrorString ''broken pipe''))),
                       CoStep None, CoStep None, CoStep None] exampleServeWaiting = Some s'"
    "co s' = C_Finished" "\<not> exited s'" "baseDone s'"
    "logged s' = logged exampleServeWaiting @
              (case Some (Wrapped ''close'' (ErrorString ''broken pipe'')) of
                 None \<Rightarrow> []
               | Some err \<Rightarrow>
                   if errors_Is err Canceled then []
                   else [LogFailed ''shutdown failed'' err])"
    by blast
  with c(3) have "serve_steps [CoStep (Some (Wrapped ''close'' (ErrorString ''broken pipe''))),
                       CoStep None, CoStep None, CoStep None] exampleServeWaiting = Some s' \<and>
         co s' = C_Finished \<and> \<not> exited s' \<and> baseDone s' \<and>
         logged s' = [LogFailed ''shutdown failed''
                        (Wrapped ''close'' (ErrorString ''broken pipe''))]"
    by simp
  with r c t show ?thesis by blast
qed

subsection \<open>serve returns after the shutdown coordinator\<close>

text \<open>
  C9, as stated, fails: that \<open>serve\<close> has returned does not imply that no further request
  processing occurs. In the run below a request is in flight when \<open>ctx\<close> is cancelled and
  \<open>Shutdown\<close> returns at its bound with \<open>DeadlineExceeded\<close>; the coordinator finishes,
  \<open>serve\<close> returns, and the handler of that request is still running.
\<close>

theorem serve_returned_request_in_flight:
  "net_reachable exampleTimeoutEnd \<and>
   main (proc exampleTimeoutEnd) = M_Returned \<and>
   co (proc exampleTimeoutEnd) = C_Finished \<and>
   shutdownResult (proc exampleTimeoutEnd) = Some (Some DeadlineExceeded) \<and>
   inflight exampleTimeoutEnd = 1 \<and>
   net_step Handle exampleTimeoutEnd = Some exampleTimeoutEnd \<and>
   \<not> (\<forall>t. net_reachable t \<and> main (proc t) = M_Returned \<longrightarrow> net_step Handle t = None)"
proof -
  have r: "net_reachable exampleTimeoutEnd"
    using net_steps_reachable [OF net_reachable.init exampleTimeoutRun_end] .
  have m: "main (proc exampleTimeoutEnd) = M_Returned"
    "co (proc exampleTimeoutEnd) = C_Finished"
    "shutdownResult (proc exampleTimeoutEnd) = Some (Some DeadlineExceeded)"
    "inflight exampleTimeoutEnd = 1"
    by (simp_all add: exampleTimeoutEnd_def exampleServeEnd_def)
  have h: "net_step Handle exampleTimeoutEnd = Some exampleTimeoutEnd"
    by (simp add: exampleTimeoutEnd_def exampleServeEnd_def)
  have "\<not> (\<forall>t. net_reachable t \<and> main (proc t) = M_Returned \<longrightarrow> net_step Handle t = None)"
  proof
    assume "\<forall>t. net_reachable t \<and> main (proc t) = M_Returned \<longrightarrow> net_step Handle t = None"
    with r m(1) have "net_step Handle exampleTimeoutEnd = None" by blast
    with h show False by simp
  qed
  with r m h show ?thesis by blast
qed

text \<open>
  C9, amended. \<open>serve\<close> does not return to its caller until the shutdown coordinator
  goroutine has finished: in every state of every interleaving in which \<open>serve\<close> has
  returned, the coordinator has seen the cancellation, \<open>httpSrv.Shutdown\<close> has been called
  with its bound and has returned, the base context is cancelled, neither goroutine has a
  step left to take and no new request is taken up; and while the coordinator has not
  finished, the deferred \<open>wg.Wait()\<close> does not return. That \<open>serve\<close> has returned implies
  that no further request processing occurs only when \<open>Shutdown\<close> returned something other
  than the deadline error of its bound.
\<close>

theorem serve_returned_join:
  assumes "net_reachable t"
  shows "(main (proc t) = M_Returned \<longrightarrow>
            co (proc t) = C_Finished \<and> wg (proc t) = 0 \<and> ctxDone (proc t) \<and>
            inShutdown (proc t) \<and> shutdownTimeout (proc t) = Some Minute \<and>
            shutdownResult (proc t) \<noteq> None \<and> baseDone (proc t) \<and>
            net_step (Proc (CoStep r)) t = None \<and> net_step (Proc (MainStep r)) t = None \<and>
            net_step Request t = None \<and>
            (shutdownResult (proc t) \<noteq> Some (Some DeadlineExceeded) \<longrightarrow>
               inflight t = 0 \<and> net_step Handle t = None)) \<and>
         (main (proc t) = M_Wait \<and> co (proc t) \<noteq> C_Finished \<longrightarrow>
            net_step (Proc (MainStep r)) t = None)"
proof -
  note join = serve_join [OF net_reachable_proc [OF assms], of r]
  from net_reachable_inv [OF assms]
  have quiet: "shutdownResult (proc t) \<noteq> None \<and>
       shutdownResult (proc t) \<noteq> Some (Some DeadlineExceeded) \<longrightarrow> inflight t = 0"
    by (simp add: net_inv_def)
  have returned: "main (proc t) = M_Returned \<longrightarrow>
            co (proc t) = C_Finished \<and> wg (proc t) = 0 \<and> ctxDone (proc t) \<and>
            inShutdown (proc t) \<and> shutdownTimeout (proc t) = Some Minute \<and>
            shutdownResult (proc t) \<noteq> None \<and> baseDone (proc t) \<and>
            net_step (Proc (CoStep r)) t = None \<and> net_step (Proc (MainStep r)) t = None \<and>
            net_step Request t = None \<and>
            (shutdownResult (proc t) \<noteq> Some (Some DeadlineExceeded) \<longrightarrow>
               inflight t = 0 \<and> net_step Handle t = None)"
  proof
    assume m: "main (proc t) = M_Returned"
    with join [THEN conjunct1]
    have j: "co (proc t) = C_Finished \<and> wg (proc t) = 0 \<and> ctxDone (proc t) \<and>
            inShutdown (proc t) \<and> shutdownTimeout (proc t) = Some Minute \<and>
            shutdownResult (proc t) \<noteq> None \<and> baseDone (proc t)"
      and c: "serve_step (CoStep r) (proc t) = None"
      and a: "serve_step (MainStep r) (proc t) = None"
      by simp_all
    from m have q: "net_step Request t = None" by simp
    from j quiet have "shutdownResult (proc t) \<noteq> Some (Some DeadlineExceeded) \<longrightarrow>
               inflight t = 0 \<and> net_step Handle t = None"
      by simp
    with j net_step_Proc_None [OF c] net_step_Proc_None [OF a] q
    show "co (proc t) = C_Finished \<and> wg (proc t) = 0 \<and> ctxDone (proc t) \<and>
            inShutdown (proc t) \<and> shutdownTimeout (proc t) = Some Minute \<and>
            shutdownResult (proc t) \<noteq> None \<and> baseDone (proc t) \<and>
            net_step (Proc (CoStep r)) t = None \<and> net_step (Proc (MainStep r)) t = None \<and>
            net_step Request t = None \<and>
            (shutdownResult (proc t) \<noteq> Some (Some DeadlineExceeded) \<longrightarrow>
               inflight t = 0 \<and> net_step Handle t = None)"
      by simp
  qed
  have waiting: "main (proc t) = M_Wait \<and> co (proc t) \<noteq> C_Finished \<longrightarrow>
            net_step (Proc (MainStep r)) t = None"
  proof
    assume "main (proc t) = M_Wait \<and> co (proc t) \<noteq> C_Finished"
    with join [THEN conjunct2] have "serve_step (MainStep r) (proc t) = None" by simp
    then show "net_step (Proc (MainStep r)) t = None" by (rule net_step_Proc_None)
  qed
  from returned waiting show ?thesis ..
qed

theorem serve_returned_join_witness:
  "net_reachable exampleCleanEnd \<and> main (proc exampleCleanEnd) = M_Returned \<and>
   shutdownResult (proc exampleCleanEnd) = Some None \<and>
   co (proc exampleCleanEnd) = C_Finished \<and> baseDone (proc exampleCleanEnd) \<and>
   net_step (Proc (CoStep None)) exampleCleanEnd = None \<and>
   net_step (Proc (MainStep None)) exampleCleanEnd = None \<and>
   net_step Request exampleCleanEnd = None \<and>
   inflight exampleCleanEnd = 0 \<and> net_step Handle exampleCleanEnd = None \<and>
   net_reachable exampleNetWaiting \<and> main (proc exampleNetWaiting) = M_Wait \<and>
   co (proc exampleNetWaiting) \<noteq> C_Finished \<and>
   net_step (Proc (MainStep None)) exampleNetWaiting = None"
proof -
  have r1: "net_reachable exampleCleanEnd"
    using net_steps_reachable [OF net_reachable.init exampleCleanRun_end] .
  have r2: "net_reachable exampleNetWaiting"
    using net_steps_reachable [OF net_reachable.init exampleTimeoutRun_waiting] .
  have m1: "main (proc exampleCleanEnd) = M_Returned"
    and s1: "shutdownResult (proc exampleCleanEnd) = Some None"
    and d1: "shutdownResult (proc exampleCleanEnd) \<noteq> Some (Some DeadlineExceeded)"
    and m2: "main (proc exampleNetWaiting) = M_Wait \<and> co (proc exampleNetWaiting) \<noteq> C_Finished"
    by (simp_all add: exampleCleanEnd_def exampleNetWaiting_def exampleServeWaiting_def)
  note clean = serve_returned_join [OF r1, of None, THEN conjunct1, rule_format, OF m1]
  from clean have e1: "co (proc exampleCleanEnd) = C_Finished" "baseDone (proc exampleCleanEnd)"
    "net_step (Proc (CoStep None)) exampleCleanEnd = None"
    "net_step (Proc (MainStep None)) exampleCleanEnd = None"
    "net_step Request exampleCleanEnd = None"
    by simp_all
  from clean d1 have e2: "inflight exampleCleanEnd = 0" "net_step Handle exampleCleanEnd = None"
    by simp_all
  from serve_returned_join [OF r2, of None, THEN conjunct2] m2
  have e3: "net_step (Proc (MainStep None)) exampleNetWaiting = None"
    by simp
  from r1 r2 m1 s1 m2 e1 e2 e3 show ?thesis by simp
qed

end
